theory Spec2Isabelle
  imports Complex_Main "HOL-Library.AList" "HOL-Library.Char_ord" "HOL-Library.List_Lexorder" "HOL-Library.Product_Lexorder"
begin

section \<open>Strings as the converter uses them\<close>

text \<open>
  Labels are Python \<open>str\<close> values. They are modelled as \<open>string\<close> (a list of 8-bit
  characters), one \<open>char\<close> per code point, so a label is a string over the code points
  \<open>U+0000\<close> to \<open>U+00FF\<close>. Among these \<open>str.lower()\<close> changes \<open>A..Z\<close> and the
  capital letters \<open>U+00C0\<close> to \<open>U+00DE\<close> other than the multiplication sign \<open>U+00D7\<close>;
  each moves up by 32. The micro sign, the sharp s and the y with diaeresis are lower
  case already.
\<close>

definition lower_char :: "char \<Rightarrow> char" where
  "lower_char c =
     (let n = (of_char c :: nat)
      in if (65 \<le> n \<and> n \<le> 90) \<or> (192 \<le> n \<and> n \<le> 214) \<or> (216 \<le> n \<and> n \<le> 222)
         then char_of (n + 32) else c)"

definition lower :: "string \<Rightarrow> string" where
  "lower s = map lower_char s"

fun is_prefix :: "string \<Rightarrow> string \<Rightarrow> bool" where
  "is_prefix [] ys = True"
| "is_prefix (x # xs) [] = False"
| "is_prefix (x # xs) (y # ys) = (x = y \<and> is_prefix xs ys)"

text \<open>\<open>contains p s\<close> is Python's \<open>p in s\<close> on strings.\<close>

fun contains :: "string \<Rightarrow> string \<Rightarrow> bool" where
  "contains p [] = (p = [])"
| "contains p (c # cs) = (is_prefix p (c # cs) \<or> contains p cs)"

text \<open>\<open>any_in kws s\<close> is \<open>any(k in s for k in kws)\<close>.\<close>

definition any_in :: "string list \<Rightarrow> string \<Rightarrow> bool" where
  "any_in kws s = list_ex (\<lambda>k. contains k s) kws"

text \<open>
  \<open>s.strip(c)\<close> for a one-character argument, and \<open>s.strip()\<close> for white space, which
  removes the characters that \<open>str.isspace\<close> accepts: below \<open>U+0100\<close> these are
  \<open>U+0009\<close> to \<open>U+000D\<close>, \<open>U+001C\<close> to \<open>U+0020\<close>, \<open>U+0085\<close> and \<open>U+00A0\<close>.
\<close>

definition strip_char :: "char \<Rightarrow> string \<Rightarrow> string" where
  "strip_char c s = rev (dropWhile (\<lambda>x. x = c) (rev (dropWhile (\<lambda>x. x = c) s)))"

definition is_space :: "char \<Rightarrow> bool" where
  "is_space c =
     (let n = (of_char c :: nat)
      in (9 \<le> n \<and> n \<le> 13) \<or> (28 \<le> n \<and> n \<le> 32) \<or> n = 133 \<or> n = 160)"

definition strip_ws :: "string \<Rightarrow> string" where
  "strip_ws s = rev (dropWhile is_space (rev (dropWhile is_space s)))"

text \<open>
  \<open>s.replace(old, new)\<close>: occurrences are replaced from left to right and do not
  overlap. Every call site passes a non-empty constant for \<open>old\<close>; for an empty
  \<open>old\<close> the model returns \<open>s\<close> unchanged.
\<close>

fun replace :: "string \<Rightarrow> string \<Rightarrow> string \<Rightarrow> string" where
  "replace old new [] = []"
| "replace old new (c # cs) =
     (if old \<noteq> [] \<and> is_prefix old (c # cs)
      then new @ replace old new (drop (length old - 1) cs)
      else c # replace old new cs)"

section \<open>Label similarity (\<open>are_labels_similar\<close>)\<close>

definition normalize_label :: "string \<Rightarrow> string" where
  "normalize_label l = replace ''-'' '''' (replace ''_'' '''' (strip_char CHR ''_'' (lower l)))"

definition patterns_to_remove :: "string list" where
  "patterns_to_remove = [''get_'', ''set_'', ''is_'', ''has_'', ''do_'', ''handle_'',
     ''process_'', ''init_'', ''setup_'', ''create_'', ''delete_'', ''update_'']"

definition remove_patterns :: "string \<Rightarrow> string" where
  "remove_patterns s = fold (\<lambda>p acc. replace p '''' acc) patterns_to_remove s"

text \<open>
  The test \<open>max_len <= min_len * 1.5\<close> compares an integer with a float product;
  \<open>1.5\<close> is exact in binary, so the test is \<open>2 * max_len \<le> 3 * min_len\<close>.
\<close>

definition are_labels_similar :: "string \<Rightarrow> string \<Rightarrow> bool" where
  "are_labels_similar label1 label2 =
     (if label1 = label2 then True
      else
        let norm1 = normalize_label label1;
            norm2 = normalize_label label2
        in if (contains norm1 norm2 \<or> contains norm2 norm1)
              \<and> 2 * max (length norm1) (length norm2) \<le> 3 * min (length norm1) (length norm2)
           then True
           else remove_patterns norm1 = remove_patterns norm2)"

section \<open>Label cleaning (\<open>clean_node_label\<close>)\<close>

text \<open>
  \<open>f"Node{self.node_counter}"\<close>: the counter is an unbounded Python integer, never
  negative, printed in decimal; \<open>counter\<close> is its value at the call.
\<close>

fun string_of_nat :: "nat \<Rightarrow> string" where
  "string_of_nat n =
     (if n < 10 then [char_of (48 + n)]
      else string_of_nat (n div 10) @ [char_of (48 + n mod 10)])"

definition synthetic_label :: "nat \<Rightarrow> string" where
  "synthetic_label counter = ''Node'' @ string_of_nat counter"

text \<open>
  The four \<open>re.sub(pattern, '', label)\<close> calls. \<open>re.sub\<close> scans from left to right,
  removes the match that starts at the leftmost position and goes on after it. Each
  \<open>..._here\<close> function gives the length of the match that starts at the head of its
  argument, as the backtracking matcher finds it; none of the patterns matches the
  empty string.
\<close>

definition path_dirs :: "string list" where
  "path_dirs = [''src/'', ''include/'', ''lib/'', ''bin/'', ''Source/'', ''Headers/'']"

definition project_dirs :: "string list" where
  "project_dirs = [''Core/Inc/'', ''Core/Src/''] @ path_dirs"

text \<open>The first alternative of the list that is a prefix of \<open>s\<close>.\<close>

fun match_alts :: "string list \<Rightarrow> string \<Rightarrow> nat option" where
  "match_alts [] s = None"
| "match_alts (a # as) s = (if is_prefix a s then Some (length a) else match_alts as s)"

fun resub :: "(string \<Rightarrow> nat option) \<Rightarrow> string \<Rightarrow> string" where
  "resub here [] = []"
| "resub here (c # cs) =
     (case here (c # cs) of
        Some (Suc k) \<Rightarrow> resub here (drop k cs)
      | _ \<Rightarrow> c # resub here cs)"

text \<open>
  \<open>[^/]+/(?:Core/(?:Inc|Src)/|src/|include/|lib/|bin/|Source/|Headers/)\<close>: the greedy
  run of non-slash characters cannot give characters back, since the next character
  has to be the slash.
\<close>

definition project_prefix_here :: "string \<Rightarrow> nat option" where
  "project_prefix_here s =
     (let run = takeWhile (\<lambda>c. c \<noteq> CHR ''/'') s;
          rest = dropWhile (\<lambda>c. c \<noteq> CHR ''/'') s
      in if run = [] then None
         else (case rest of
                 [] \<Rightarrow> None
               | _ # after \<Rightarrow>
                   (case match_alts project_dirs after of
                      None \<Rightarrow> None
                    | Some k \<Rightarrow> Some (length run + 1 + k))))"

text \<open>\<open>(?:\.\./)*/(?:src/|include/|lib/|bin/|Source/|Headers/)\<close>.\<close>

fun dotdot_run :: "string \<Rightarrow> nat" where
  "dotdot_run (a # b # c # cs) =
     (if a = CHR ''.'' \<and> b = CHR ''.'' \<and> c = CHR ''/'' then 3 + dotdot_run cs else 0)"
| "dotdot_run cs = 0"

definition relative_prefix_here :: "string \<Rightarrow> nat option" where
  "relative_prefix_here s =
     (let k = dotdot_run s
      in (case drop k s of
            [] \<Rightarrow> None
          | c # after \<Rightarrow>
              if c = CHR ''/'' then
                (case match_alts path_dirs after of
                   None \<Rightarrow> None
                 | Some m \<Rightarrow> Some (k + 1 + m))
              else None))"

text \<open>
  \<open>.*/(?:src/|include/|lib/|bin/|Source/|Headers/)/\<close>: the dot does not match a
  newline, so the match lies in the text before the first newline, and the greedy
  \<open>.*\<close> makes it end at the last place where the rest of the pattern matches.
\<close>

definition slash_dir_slash_here :: "string \<Rightarrow> nat option" where
  "slash_dir_slash_here s =
     (case s of
        [] \<Rightarrow> None
      | c # after \<Rightarrow>
          if c = CHR ''/'' then
            (case match_alts path_dirs after of
               None \<Rightarrow> None
             | Some m \<Rightarrow> if is_prefix ''/'' (drop m after) then Some (m + 2) else None)
          else None)"

fun last_dir_end :: "string \<Rightarrow> nat option" where
  "last_dir_end [] = None"
| "last_dir_end (c # cs) =
     (case last_dir_end cs of
        Some k \<Rightarrow> Some (Suc k)
      | None \<Rightarrow> slash_dir_slash_here (c # cs))"

definition greedy_dir_here :: "string \<Rightarrow> nat option" where
  "greedy_dir_here s = last_dir_end (takeWhile (\<lambda>c. c \<noteq> CHR 0x0A) s)"

text \<open>
  \<open>\.(c|h|cpp|...)$\<close>: the alternatives are tried in order until \<open>$\<close> matches, which
  it does at the end of the string and before a newline that ends the string.
\<close>

definition extensions :: "string list" where
  "extensions = [''c'', ''h'', ''cpp'', ''hpp'', ''cc'', ''cxx'', ''c++'', ''py'', ''pyx'', ''pyi'',
     ''java'', ''js'', ''ts'', ''jsx'', ''tsx'', ''go'', ''rs'', ''swift'', ''m'', ''mm'', ''cs'', ''php'',
     ''rb'', ''pl'', ''sh'', ''asm'', ''s'']"

definition extension_here :: "string \<Rightarrow> nat option" where
  "extension_here s =
     (case s of
        [] \<Rightarrow> None
      | c # after \<Rightarrow>
          if c = CHR ''.'' then
            (case find (\<lambda>e. after = e \<or> after = e @ [CHR 0x0A]) extensions of
               None \<Rightarrow> None
             | Some e \<Rightarrow> Some (1 + length e))
          else None)"

text \<open>\<open>[<>{}\\/:*?"|\[\]()]\<close>, and \<open>[_]{2,}\<close> replaced by one underscore.\<close>

definition invalid_chars :: "char list" where
  "invalid_chars = [CHR ''<'', CHR ''>'', CHR ''{'', CHR ''}'', CHR 0x5C, CHR ''/'', CHR '':'',
     CHR ''*'', CHR ''?'', CHR 0x22, CHR ''|'', CHR ''['', CHR '']'', CHR ''('', CHR '')'']"

fun collapse_underscores :: "string \<Rightarrow> string" where
  "collapse_underscores (a # b # cs) =
     (if a = CHR ''_'' \<and> b = CHR ''_'' then collapse_underscores (b # cs)
      else a # collapse_underscores (b # cs))"
| "collapse_underscores cs = cs"

text \<open>The label after the substitutions, before the two final tests of the function.\<close>

definition clean_text :: "string \<Rightarrow> string" where
  "clean_text label =
     (let l1 = strip_ws (replace [CHR 0x0A] '' '' (replace [CHR 0x5C, CHR ''l''] '' '' label));
          l2 = resub project_prefix_here l1;
          l3 = resub relative_prefix_here l2;
          l4 = resub greedy_dir_here l3;
          l5 = resub extension_here l4;
          l6 = replace ''::'' ''_'' l5;
          l7 = replace ''.'' ''_'' l6;
          l8 = replace ''->'' ''_'' l7;
          l9 = filter (\<lambda>c. c \<notin> set invalid_chars) l8;
          l10 = collapse_underscores l9
      in strip_char CHR ''_'' l10)"

definition truncate_label :: "string \<Rightarrow> string" where
  "truncate_label label = (if length label > 25 then take 22 label @ ''...'' else label)"

definition clean_node_label :: "nat \<Rightarrow> string \<Rightarrow> string" where
  "clean_node_label counter label =
     (if label = [] then synthetic_label counter
      else
        let cleaned = clean_text label;
            named = (if cleaned = [] then synthetic_label counter else cleaned)
        in truncate_label named)"

section \<open>Edge styles (\<open>get_edge_style\<close>)\<close>

text \<open>
  The coordinates are the connection points computed by the emitter: integers, or
  half-integer multiples of the level spacing for nodes on a split level. The function
  only compares and subtracts them, so it is stated over any ordered ring.
\<close>

definition is_main_entry :: "string \<Rightarrow> bool" where
  "is_main_entry source_label = any_in [''main'', ''__main__'', ''init'', ''setup''] source_label"

definition is_error_handling :: "string \<Rightarrow> bool" where
  "is_error_handling target_label = any_in [''error'', ''fail'', ''exception'', ''abort''] target_label"

definition is_utility_call :: "string \<Rightarrow> bool" where
  "is_utility_call target_label =
     any_in [''get'', ''set'', ''property'', ''util'', ''helper''] target_label"

definition is_io_operation :: "string \<Rightarrow> bool" where
  "is_io_operation target_label =
     any_in [''read'', ''write'', ''input'', ''output'', ''send'', ''receive''] target_label"

definition is_cleanup :: "string \<Rightarrow> bool" where
  "is_cleanup target_label = any_in [''cleanup'', ''close'', ''finalize'', ''destroy''] target_label"

definition is_timing :: "string \<Rightarrow> bool" where
  "is_timing target_label = any_in [''timer'', ''delay'', ''wait'', ''sleep''] target_label"

definition base_style :: string where
  "base_style = ''edgeStyle=orthogonalEdgeStyle;rounded=1;orthogonalLoop=1;jettySize=auto;html=1;endArrow=classic;shadow=1;labelBackgroundColor=#ffffff;''"

definition get_edge_style ::
  "string \<Rightarrow> string \<Rightarrow> 'a::linordered_idom \<Rightarrow> 'a \<Rightarrow> 'a \<Rightarrow> 'a \<Rightarrow> string" where
  "get_edge_style source_label target_label source_x source_y target_x target_y =
     (let is_downward = target_y > source_y;
          is_upward = target_y < source_y;
          is_lateral = (target_y = source_y);
          x_distance = \<bar>target_x - source_x\<bar>;
          routing_style =
            (if x_distance > 300 \<or> (is_lateral \<and> x_distance > 200) \<or> (is_upward \<and> x_distance > 150)
             then ''entryX=0.5;entryY=0;exitX=0.5;exitY=1;noEdgeStyle=1;''
             else ''entryX=0.5;entryY=0;exitX=0.5;exitY=1;'')
      in if is_downward then
           (if is_main_entry source_label then
              base_style @ routing_style @ ''strokeWidth=4;strokeColor=#1976d2;fontColor=#1976d2;fontStyle=1;opacity=90;''
            else if is_error_handling target_label then
              base_style @ routing_style @ ''strokeWidth=2.5;strokeColor=#e53e3e;dashed=1;opacity=85;''
            else if is_io_operation target_label then
              base_style @ routing_style @ ''strokeWidth=2.5;strokeColor=#9775fa;opacity=85;''
            else if is_cleanup target_label then
              base_style @ routing_style @ ''strokeWidth=2;strokeColor=#fd7e14;dashed=1;opacity=80;''
            else
              base_style @ routing_style @ ''strokeWidth=2;strokeColor=#339af0;opacity=85;'')
         else if is_upward then
           (if is_error_handling target_label then
              base_style @ ''edgeStyle=elbowEdgeStyle;elbow=vertical;'' @ ''strokeWidth=2.5;strokeColor=#e53e3e;dashed=1;opacity=80;''
            else
              base_style @ ''edgeStyle=elbowEdgeStyle;elbow=vertical;'' @ ''strokeWidth=2;strokeColor=#fd7e14;dashed=1;opacity=75;'')
         else
           (let curve_style =
                  (if x_distance > 200 then ''edgeStyle=elbowEdgeStyle;elbow=horizontal;''
                   else ''edgeStyle=orthogonalEdgeStyle;'')
            in if is_error_handling target_label then
                 base_style @ curve_style @ ''strokeWidth=2;strokeColor=#e53e3e;opacity=80;''
               else if is_utility_call target_label then
                 base_style @ curve_style @ ''strokeWidth=1.5;strokeColor=#37b24d;opacity=75;''
               else if is_timing target_label then
                 base_style @ curve_style @ ''strokeWidth=2;strokeColor=#ff8787;opacity=80;''
               else if is_io_operation target_label then
                 base_style @ curve_style @ ''strokeWidth=2;strokeColor=#9775fa;opacity=80;''
               else
                 base_style @ curve_style @ ''strokeWidth=2;strokeColor=#38d9a9;opacity=80;''))"

text \<open>The three directions the function distinguishes, and what it reads of the labels.\<close>

datatype flow = Downward | Upward | Lateral

definition flow_direction :: "'a::linordered_idom \<Rightarrow> 'a \<Rightarrow> flow" where
  "flow_direction source_y target_y =
     (if target_y > source_y then Downward else if target_y < source_y then Upward else Lateral)"

definition source_signal :: "string \<Rightarrow> bool" where
  "source_signal source_label = is_main_entry source_label"

definition target_signal :: "string \<Rightarrow> bool \<times> bool \<times> bool \<times> bool \<times> bool" where
  "target_signal target_label =
     (is_error_handling target_label, is_utility_call target_label, is_io_operation target_label,
      is_cleanup target_label, is_timing target_label)"

definition distance_class :: "'a::linordered_idom \<Rightarrow> 'a \<Rightarrow> bool \<times> bool \<times> bool" where
  "distance_class source_x target_x =
     (\<bar>target_x - source_x\<bar> > 150, \<bar>target_x - source_x\<bar> > 200, \<bar>target_x - source_x\<bar> > 300)"

section \<open>Ingestion (\<open>process_single_dot_file\<close>, \<open>combine_all_dot_files\<close>)\<close>

text \<open>
  Python dictionaries keep insertion order, and the layout iterates over them, so a
  dictionary is an association list with distinct keys: \<open>d[k] = v\<close> replaces the value
  of a key that is present in place and appends a new key at the end, \<open>d.get(k)\<close> is
  \<^const>\<open>map_of\<close>.

  A simple id is the string \<open>f"node-{n}"\<close> for the value \<open>n\<close> of the node counter; the
  model keeps the number \<open>n\<close>.
\<close>

definition dict_set :: "('k \<times> 'v) list \<Rightarrow> 'k \<Rightarrow> 'v \<Rightarrow> ('k \<times> 'v) list" where
  "dict_set d k v = AList.update k v d"

definition dict_keys :: "('k \<times> 'v) list \<Rightarrow> 'k list" where
  "dict_keys d = map fst d"

record converter =
  label_to_simple :: "(string \<times> nat) list"
  simple_to_label :: "(nat \<times> string) list"
  all_edges :: "(nat \<times> nat) list"
  node_counter :: nat
  original_to_simple :: "(string \<times> nat) list"
  file_sources :: "(nat \<times> string) list"

definition init_converter :: converter where
  "init_converter = \<lparr>label_to_simple = [], simple_to_label = [], all_edges = [],
     node_counter = 1, original_to_simple = [], file_sources = []\<rparr>"

text \<open>
  The converter reads a DOT file only through \<open>finditer\<close> of its node and edge
  patterns. A file is given by its base name, whether it could be read, whether
  \<open>digraph\<close> followed by white space occurs in it, and the matches in the order in which
  the loops over the patterns visit them: for a node the raw id and the label (the
  \<open>node_unique_id\<close> group is passed on but never read), for an edge the two raw ids.
\<close>

record dot_file =
  basename :: string
  readable :: bool
  has_digraph :: bool
  node_matches :: "(string \<times> string) list"
  edge_matches :: "(string \<times> string) list"

definition find_similar_node :: "converter \<Rightarrow> string \<Rightarrow> nat option" where
  "find_similar_node st clean_label =
     (case map_of (label_to_simple st) clean_label of
        Some existing_id \<Rightarrow> Some existing_id
      | None \<Rightarrow>
          (case find (\<lambda>(existing_label, existing_id). are_labels_similar clean_label existing_label)
                  (label_to_simple st) of
             Some (existing_label, existing_id) \<Rightarrow> Some existing_id
           | None \<Rightarrow> None))"

definition reserved_labels :: "string list" where
  "reserved_labels = [''node'', ''graph'', ''cluster'']"

definition scoped_id :: "string \<Rightarrow> string \<Rightarrow> string" where
  "scoped_id file_basename original_node_id = file_basename @ ''::'' @ original_node_id"

text \<open>One iteration of the node loop; \<open>processed_nodes\<close> is the set local to the file.\<close>

definition process_node ::
  "string \<Rightarrow> string \<times> string \<Rightarrow> converter \<times> string list \<Rightarrow> converter \<times> string list" where
  "process_node file_basename m acc =
     (let (original_node_id, node_label) = m;
          (st, processed_nodes) = acc;
          node_key = scoped_id file_basename original_node_id
      in if node_key \<in> set processed_nodes then (st, processed_nodes)
         else
           let processed_nodes' = node_key # processed_nodes;
               clean_label = clean_node_label (node_counter st) node_label
           in if clean_label = [] \<or> lower clean_label \<in> set reserved_labels
              then (st, processed_nodes')
              else
                let (simple_node_id, st') =
                      (case find_similar_node st clean_label of
                         Some similar_node_id \<Rightarrow> (similar_node_id, st)
                       | None \<Rightarrow>
                           (node_counter st,
                            st\<lparr>label_to_simple := dict_set (label_to_simple st) clean_label (node_counter st),
                               simple_to_label := dict_set (simple_to_label st) (node_counter st) clean_label,
                               file_sources := dict_set (file_sources st) (node_counter st) file_basename,
                               node_counter := node_counter st + 1\<rparr>))
                in (st'\<lparr>original_to_simple :=
                          dict_set (dict_set (original_to_simple st') node_key simple_node_id)
                            original_node_id simple_node_id\<rparr>,
                    processed_nodes'))"

text \<open>The scoped alias is tried first, then the bare raw id.\<close>

definition resolve :: "converter \<Rightarrow> string \<Rightarrow> string \<Rightarrow> nat option" where
  "resolve st file_basename original =
     (case map_of (original_to_simple st) (scoped_id file_basename original) of
        Some simple \<Rightarrow> Some simple
      | None \<Rightarrow> map_of (original_to_simple st) original)"

definition process_edge ::
  "string \<Rightarrow> string \<times> string \<Rightarrow> converter \<times> (nat \<times> nat) list \<Rightarrow> converter \<times> (nat \<times> nat) list" where
  "process_edge file_basename m acc =
     (let (source_original, target_original) = m;
          (st, processed_edges) = acc
      in case (resolve st file_basename source_original, resolve st file_basename target_original) of
           (Some source_simple, Some target_simple) \<Rightarrow>
             if source_simple \<noteq> target_simple
                \<and> (source_simple, target_simple) \<notin> set processed_edges
                \<and> (source_simple, target_simple) \<notin> set (all_edges st)
             then (st\<lparr>all_edges := all_edges st @ [(source_simple, target_simple)]\<rparr>,
                   (source_simple, target_simple) # processed_edges)
             else (st, processed_edges)
         | _ \<Rightarrow> (st, processed_edges))"

definition process_single_dot_file :: "dot_file \<Rightarrow> converter \<Rightarrow> converter" where
  "process_single_dot_file f st =
     (if \<not> readable f then st
      else if \<not> has_digraph f then st
      else if contains ''dep.dot'' (basename f) \<or> contains ''dir_'' (basename f) then st
      else
        let (st1, processed_nodes) = fold (process_node (basename f)) (node_matches f) (st, []);
            (st2, processed_edges) = fold (process_edge (basename f)) (edge_matches f) (st1, [])
        in st2)"

definition unique_step :: "'a \<Rightarrow> 'a list \<times> 'a list \<Rightarrow> 'a list \<times> 'a list" where
  "unique_step edge acc =
     (let (unique_edges, seen_edges) = acc
      in if edge \<notin> set seen_edges then (unique_edges @ [edge], edge # seen_edges)
         else (unique_edges, seen_edges))"

definition final_deduplication_pass :: "converter \<Rightarrow> converter" where
  "final_deduplication_pass st =
     (let unique_edges = fst (fold unique_step (all_edges st) ([], []));
          valid_node_ids = set (dict_keys (simple_to_label st))
      in st\<lparr>all_edges := unique_edges,
            original_to_simple := filter (\<lambda>(orig_id, simple_id). simple_id \<in> valid_node_ids) (original_to_simple st),
            file_sources := filter (\<lambda>(node_id, source). node_id \<in> valid_node_ids) (file_sources st)\<rparr>)"

text \<open>
  \<open>dot_files\<close> is what \<open>find_dot_files\<close> returned; the result is the returned flag and
  the converter afterwards.
\<close>

definition combine_all_dot_files :: "dot_file list \<Rightarrow> converter \<Rightarrow> bool \<times> converter" where
  "combine_all_dot_files dot_files st =
     (if dot_files = [] then (False, st)
      else
        let st' = final_deduplication_pass (fold process_single_dot_file dot_files st)
        in (simple_to_label st' \<noteq> [], st'))"

section \<open>The graph of the layout (\<open>calculate_hierarchical_layout\<close>)\<close>

text \<open>
  The layout works on \<open>simple_to_label\<close> (here \<open>nodes\<close>) and \<open>all_edges\<close> (here
  \<open>edges\<close>). A subscript \<open>d[k]\<close> raises \<open>KeyError\<close> on a missing key and \<open>max\<close> of an
  empty list raises \<open>ValueError\<close>; the model has no handler for either, as the code has
  none, so every function that can raise returns an option and \<open>None\<close> is the escaped
  exception.

  \<open>incoming\<close> and \<open>outgoing\<close> have the keys of \<open>nodes\<close>; an edge adds to them only
  when both its ends are keys.
\<close>

definition incoming :: "(nat \<times> string) list \<Rightarrow> (nat \<times> nat) list \<Rightarrow> nat \<Rightarrow> nat list option" where
  "incoming nodes edges n =
     (if n \<in> set (dict_keys nodes)
      then Some (map fst (filter (\<lambda>(source, target).
                    source \<in> set (dict_keys nodes) \<and> target \<in> set (dict_keys nodes) \<and> target = n) edges))
      else None)"

definition outgoing :: "(nat \<times> string) list \<Rightarrow> (nat \<times> nat) list \<Rightarrow> nat \<Rightarrow> nat list option" where
  "outgoing nodes edges n =
     (if n \<in> set (dict_keys nodes)
      then Some (map snd (filter (\<lambda>(source, target).
                    source \<in> set (dict_keys nodes) \<and> target \<in> set (dict_keys nodes) \<and> source = n) edges))
      else None)"

text \<open>\<open>not incoming[node] and not outgoing[node]\<close>, for a key of \<open>nodes\<close>.\<close>

definition is_isolated_node :: "(nat \<times> string) list \<Rightarrow> (nat \<times> nat) list \<Rightarrow> nat \<Rightarrow> bool" where
  "is_isolated_node nodes edges n = (incoming nodes edges n = Some [] \<and> outgoing nodes edges n = Some [])"

definition isolated_nodes :: "(nat \<times> string) list \<Rightarrow> (nat \<times> nat) list \<Rightarrow> nat list" where
  "isolated_nodes nodes edges = filter (is_isolated_node nodes edges) (dict_keys nodes)"

definition connected_nodes :: "(nat \<times> string) list \<Rightarrow> (nat \<times> nat) list \<Rightarrow> (nat \<times> string) list" where
  "connected_nodes nodes edges = filter (\<lambda>(n, label). \<not> is_isolated_node nodes edges n) nodes"

text \<open>
  \<open>sorted(xs, key=k)\<close> is a stable sort; with \<open>reverse=True\<close> the order is descending
  and elements with equal keys still keep their order. The keys are computed first,
  so a key that raises makes the whole call raise.
\<close>

definition py_sorted :: "('a \<Rightarrow> 'k::linorder) \<Rightarrow> 'a list \<Rightarrow> 'a list" where
  "py_sorted key xs = sort_key key xs"

definition py_sorted_reverse :: "('a \<Rightarrow> 'k::linorder) \<Rightarrow> 'a list \<Rightarrow> 'a list" where
  "py_sorted_reverse key xs = rev (sort_key key (rev xs))"

definition with_keys :: "('a \<Rightarrow> 'k option) \<Rightarrow> 'a list \<Rightarrow> ('a \<times> 'k) list option" where
  "with_keys key xs = those (map (\<lambda>x. map_option (Pair x) (key x)) xs)"

definition sorted_by :: "('a \<Rightarrow> 'k::linorder option) \<Rightarrow> 'a list \<Rightarrow> 'a list option" where
  "sorted_by key xs = map_option (\<lambda>kxs. map fst (py_sorted snd kxs)) (with_keys key xs)"

definition sorted_by_reverse :: "('a \<Rightarrow> 'k::linorder option) \<Rightarrow> 'a list \<Rightarrow> 'a list option" where
  "sorted_by_reverse key xs = map_option (\<lambda>kxs. map fst (py_sorted_reverse snd kxs)) (with_keys key xs)"

fun fold_option :: "('a \<Rightarrow> 's \<Rightarrow> 's option) \<Rightarrow> 'a list \<Rightarrow> 's \<Rightarrow> 's option" where
  "fold_option f [] s = Some s"
| "fold_option f (x # xs) s = (case f x s of None \<Rightarrow> None | Some s' \<Rightarrow> fold_option f xs s')"

subsection \<open>\<open>get_execution_priority\<close>\<close>

definition base_priority :: "string \<Rightarrow> int" where
  "base_priority label_lower =
     (if any_in [''main'', ''__main__'', ''main()'', ''int main''] label_lower then 100
      else if any_in [''__init__'', ''constructor''] label_lower then 90
      else if any_in [''setup'', ''initialize'', ''init'', ''config''] label_lower then 80
      else if any_in [''start'', ''begin'', ''run'', ''execute''] label_lower then 70
      else if any_in [''process'', ''handle'', ''update'', ''loop''] label_lower then 60
      else if any_in [''read'', ''input'', ''receive'', ''get''] label_lower then 50
      else if any_in [''write'', ''output'', ''send'', ''transmit''] label_lower then 45
      else if any_in [''calculate'', ''compute'', ''transform''] label_lower then 40
      else if any_in [''validate'', ''check'', ''verify''] label_lower then 35
      else if any_in [''save'', ''store'', ''persist''] label_lower then 30
      else if any_in [''cleanup'', ''close'', ''finalize'', ''destroy''] label_lower then 20
      else if any_in [''error'', ''fail'', ''exception'', ''abort''] label_lower then 15
      else if any_in [''test'', ''debug'', ''trace''] label_lower then 10
      else if any_in [''helper'', ''utility'', ''util''] label_lower then 5
      else 0)"

definition get_execution_priority :: "string \<Rightarrow> nat \<Rightarrow> nat \<Rightarrow> int" where
  "get_execution_priority label outgoing_count incoming_count =
     base_priority (lower label) + min 20 (int outgoing_count * 2) + min 10 (int incoming_count)"

text \<open>
  \<open>self.get_execution_priority(self.simple_to_label[x], len(outgoing[x]), len(incoming[x]))\<close>.
\<close>

definition node_priority :: "(nat \<times> string) list \<Rightarrow> (nat \<times> nat) list \<Rightarrow> nat \<Rightarrow> int option" where
  "node_priority nodes edges x =
     (case map_of nodes x of
        None \<Rightarrow> None
      | Some label \<Rightarrow>
          (case outgoing nodes edges x of
             None \<Rightarrow> None
           | Some outs \<Rightarrow>
               (case incoming nodes edges x of
                  None \<Rightarrow> None
                | Some ins \<Rightarrow> Some (get_execution_priority label (length outs) (length ins)))))"

subsection \<open>Root selection\<close>

definition entry_priority :: "string \<Rightarrow> int" where
  "entry_priority node_label =
     (if any_in [''main'', ''__main__'', ''main()'', ''int main''] node_label then 20
      else if any_in [''__init__'', ''constructor'', ''setup'', ''start'', ''begin''] node_label then 15
      else if any_in [''init'', ''config'', ''configure'', ''initialize''] node_label then 12
      else if any_in [''run'', ''execute'', ''process'', ''loop'', ''update''] node_label then 10
      else if any_in [''read'', ''write'', ''send'', ''receive'', ''input'', ''output''] node_label then 8
      else if any_in [''timer'', ''delay'', ''wait'', ''sleep'', ''schedule''] node_label then 6
      else if any_in [''handle'', ''callback'', ''event'', ''interrupt'', ''trigger''] node_label then 5
      else if any_in [''error'', ''fail'', ''exception'', ''abort'', ''catch''] node_label then 3
      else if any_in [''test'', ''unittest'', ''pytest'', ''assert'', ''check''] node_label then 2
      else 1)"

text \<open>One element of \<open>entry_candidates\<close>: the node and its priority with the boost.\<close>

definition entry_candidate ::
  "(nat \<times> string) list \<Rightarrow> (nat \<times> nat) list \<Rightarrow> nat \<times> string \<Rightarrow> (nat \<times> int) option" where
  "entry_candidate nodes edges c =
     (case outgoing nodes edges (fst c) of
        None \<Rightarrow> None
      | Some outs \<Rightarrow> Some (fst c, entry_priority (lower (snd c)) + min 5 (int (length outs))))"

definition candidate_key ::
  "(nat \<times> string) list \<Rightarrow> (nat \<times> nat) list \<Rightarrow> nat \<times> int \<Rightarrow> (int \<times> nat \<times> int) option" where
  "candidate_key nodes edges x =
     (case outgoing nodes edges (fst x) of
        None \<Rightarrow> None
      | Some outs \<Rightarrow>
          (case incoming nodes edges (fst x) of
             None \<Rightarrow> None
           | Some ins \<Rightarrow> Some (snd x, length outs, - int (length ins))))"

definition max_roots :: "nat \<Rightarrow> nat" where
  "max_roots n = min 5 (max 1 (n div 10))"

text \<open>
  The roots when no connected node is free of incoming edges. The \<open>else\<close> branch of
  \<open>if entry_candidates\<close> is reached with no connected node at all and sorts the empty
  list.
\<close>

definition synthetic_roots ::
  "(nat \<times> string) list \<Rightarrow> (nat \<times> nat) list \<Rightarrow> (nat \<times> string) list \<Rightarrow> nat list option" where
  "synthetic_roots nodes edges conn =
     (case those (map (entry_candidate nodes edges) conn) of
        None \<Rightarrow> None
      | Some entry_candidates \<Rightarrow>
          if entry_candidates \<noteq> [] then
            (case sorted_by_reverse (candidate_key nodes edges) entry_candidates of
               None \<Rightarrow> None
             | Some sorted_candidates \<Rightarrow>
                 Some (map fst (take (max_roots (length entry_candidates)) sorted_candidates)))
          else
            map_option (take 3)
              (sorted_by_reverse (\<lambda>x. map_option length (outgoing nodes edges x)) (dict_keys conn)))"

definition find_roots ::
  "(nat \<times> string) list \<Rightarrow> (nat \<times> nat) list \<Rightarrow> (nat \<times> string) list \<Rightarrow> nat list option" where
  "find_roots nodes edges conn =
     (let roots = filter (\<lambda>node. incoming nodes edges node = Some []) (dict_keys conn)
      in if roots \<noteq> [] then Some roots else synthetic_roots nodes edges conn)"

subsection \<open>Level assignment: the breadth-first pass\<close>

text \<open>
  The \<open>while queue\<close> loop. \<open>levels\<close> is the dictionary being filled, \<open>visited\<close> the set
  of nodes already popped; \<open>conn\<close> holds the keys of \<open>connected_nodes\<close>. The variable
  \<open>max_level\<close> of the code is never read and is left out.
\<close>

definition sorted_children :: "(nat \<times> string) list \<Rightarrow> (nat \<times> nat) list \<Rightarrow> nat \<Rightarrow> nat list option" where
  "sorted_children nodes edges node =
     (case outgoing nodes edges node of
        None \<Rightarrow> None
      | Some outs \<Rightarrow> sorted_by_reverse (node_priority nodes edges) outs)"

function bfs_levels ::
  "(nat \<times> string) list \<Rightarrow> (nat \<times> nat) list \<Rightarrow> nat list \<Rightarrow> (nat \<times> int) list \<Rightarrow> nat set
     \<Rightarrow> (nat \<times> int) list \<Rightarrow> (nat \<times> int) list option" where
  "bfs_levels nodes edges conn [] visited levels = Some levels"
| "bfs_levels nodes edges conn ((node, level) # queue) visited levels =
     (if node \<in> visited then bfs_levels nodes edges conn queue visited levels
      else
        (case sorted_children nodes edges node of
           None \<Rightarrow> None
         | Some children \<Rightarrow>
             let level' = (case map_of levels node of Some known \<Rightarrow> max level known | None \<Rightarrow> level)
             in bfs_levels nodes edges conn
                  (queue @ map (\<lambda>child. (child, level' + 1))
                             (filter (\<lambda>child. child \<notin> insert node visited \<and> child \<in> set conn) children))
                  (insert node visited)
                  (dict_set levels node level')))"
  by pat_completeness auto
termination
proof (relation "measures [\<lambda>(nodes, edges, conn, queue, visited, levels). card (set (dict_keys nodes) - visited),
                           \<lambda>(nodes, edges, conn, queue, visited, levels). length queue]")
  show "wf (measures [\<lambda>(nodes, edges, conn, queue, visited, levels). card (set (dict_keys nodes) - visited),
                           \<lambda>(nodes, edges, conn, queue, visited, levels). length queue])"
    by simp
next
  fix nodes :: "(nat \<times> string) list" and edges :: "(nat \<times> nat) list" and conn :: "nat list"
    and node :: nat and level :: int and queue :: "(nat \<times> int) list" and visited :: "nat set"
    and levels :: "(nat \<times> int) list"
  assume "node \<in> visited"
  then show "((nodes, edges, conn, queue, visited, levels), (nodes, edges, conn, (node, level) # queue, visited, levels))
      \<in> measures [\<lambda>(nodes, edges, conn, queue, visited, levels). card (set (dict_keys nodes) - visited),
                   \<lambda>(nodes, edges, conn, queue, visited, levels). length queue]"
    by simp
next
  fix nodes :: "(nat \<times> string) list" and edges :: "(nat \<times> nat) list" and conn :: "nat list"
    and node :: nat and level :: int and queue :: "(nat \<times> int) list" and visited :: "nat set"
    and levels :: "(nat \<times> int) list" and children :: "nat list" and level' :: int
  assume unvisited: "node \<notin> visited" and some: "sorted_children nodes edges node = Some children"
  have key: "node \<in> set (dict_keys nodes)"
    using some by (auto simp: sorted_children_def outgoing_def split: if_splits)
  have "set (dict_keys nodes) - insert node visited \<subset> set (dict_keys nodes) - visited"
    using key unvisited by auto
  then have "card (set (dict_keys nodes) - insert node visited) < card (set (dict_keys nodes) - visited)"
    by (intro psubset_card_mono) auto
  then show "((nodes, edges, conn,
        queue @ map (\<lambda>child. (child, level' + 1))
                  (filter (\<lambda>child. child \<notin> insert node visited \<and> child \<in> set conn) children),
        insert node visited, dict_set levels node level'),
       (nodes, edges, conn, (node, level) # queue, visited, levels))
      \<in> measures [\<lambda>(nodes, edges, conn, queue, visited, levels). card (set (dict_keys nodes) - visited),
                   \<lambda>(nodes, edges, conn, queue, visited, levels). length queue]"
    by simp
qed

subsection \<open>Level assignment: \<open>refine_levels_by_function_type\<close>\<close>

datatype function_group = Entry | Core | IO | Processing | Utility | Error | Cleanup

definition function_group_of :: "string \<Rightarrow> function_group" where
  "function_group_of label_lower =
     (if any_in [''main'', ''__main__'', ''__init__'', ''constructor'', ''setup'', ''initialize''] label_lower then Entry
      else if any_in [''error'', ''fail'', ''exception'', ''abort'', ''catch''] label_lower then Error
      else if any_in [''cleanup'', ''close'', ''finalize'', ''destroy'', ''delete''] label_lower then Cleanup
      else if any_in [''read'', ''write'', ''input'', ''output'', ''send'', ''receive''] label_lower then IO
      else if any_in [''process'', ''calculate'', ''compute'', ''transform'', ''parse''] label_lower then Processing
      else if any_in [''helper'', ''utility'', ''util'', ''get'', ''set''] label_lower then Utility
      else Core)"

text \<open>\<open>function_groups[g]\<close>, in the order in which the loop over \<open>connected_nodes\<close> appends.\<close>

definition group_members :: "function_group \<Rightarrow> (nat \<times> string) list \<Rightarrow> nat list" where
  "group_members g conn_nodes = map fst (filter (\<lambda>(node, label). function_group_of (lower label) = g) conn_nodes)"

text \<open>\<open>levels.get(node, 0)\<close>.\<close>

definition level_or_0 :: "(nat \<times> int) list \<Rightarrow> nat \<Rightarrow> int" where
  "level_or_0 levels node = (case map_of levels node of Some level \<Rightarrow> level | None \<Rightarrow> 0)"

text \<open>\<open>min(xs, default=0)\<close>, and \<open>max(xs)\<close>, which raises on the empty list.\<close>

definition min_default_0 :: "int list \<Rightarrow> int" where
  "min_default_0 xs = (case xs of [] \<Rightarrow> 0 | x # rest \<Rightarrow> fold min rest x)"

definition py_max :: "'a::linorder list \<Rightarrow> 'a option" where
  "py_max xs = (case xs of [] \<Rightarrow> None | x # rest \<Rightarrow> Some (fold max rest x))"

definition error_step ::
  "(nat \<Rightarrow> nat list option) \<Rightarrow> int \<Rightarrow> nat \<Rightarrow> (nat \<times> int) list \<Rightarrow> (nat \<times> int) list option" where
  "error_step inc error_target_level node levels =
     (if level_or_0 levels node > error_target_level + 1 then
        (case inc node of
           None \<Rightarrow> None
         | Some parents \<Rightarrow>
             if list_all (\<lambda>parent. level_or_0 levels parent < error_target_level) parents
             then Some (dict_set levels node error_target_level)
             else Some levels)
      else Some levels)"

definition cleanup_step ::
  "(nat \<Rightarrow> nat list option) \<Rightarrow> int \<Rightarrow> nat \<Rightarrow> (nat \<times> int) list \<Rightarrow> (nat \<times> int) list option" where
  "cleanup_step inc cleanup_base_level node levels =
     (if level_or_0 levels node < cleanup_base_level then
        (case inc node of
           None \<Rightarrow> None
         | Some parents \<Rightarrow>
             if list_all (\<lambda>parent. level_or_0 levels parent < cleanup_base_level) parents
             then Some (dict_set levels node cleanup_base_level)
             else Some levels)
      else Some levels)"

definition cleanup_base :: "(nat \<times> int) list \<Rightarrow> (nat \<times> string) list \<Rightarrow> int option" where
  "cleanup_base levels conn_nodes =
     map_option (\<lambda>m. m - 1) (py_max (map (level_or_0 levels) (dict_keys conn_nodes)))"

definition refine_errors ::
  "(nat \<times> int) list \<Rightarrow> (nat \<times> string) list \<Rightarrow> (nat \<Rightarrow> nat list option) \<Rightarrow> (nat \<times> int) list option" where
  "refine_errors levels conn_nodes inc =
     (let min_entry_level = min_default_0 (map (level_or_0 levels) (group_members Entry conn_nodes))
      in if group_members Error conn_nodes \<noteq> [] then
           fold_option (error_step inc (max 2 (min_entry_level + 2))) (group_members Error conn_nodes) levels
         else Some levels)"

definition refine_cleanup ::
  "(nat \<times> int) list \<Rightarrow> (nat \<times> string) list \<Rightarrow> (nat \<Rightarrow> nat list option) \<Rightarrow> (nat \<times> int) list option" where
  "refine_cleanup levels conn_nodes inc =
     (if group_members Cleanup conn_nodes \<noteq> [] then
        (case cleanup_base levels conn_nodes of
           None \<Rightarrow> None
         | Some cleanup_base_level \<Rightarrow>
             fold_option (cleanup_step inc cleanup_base_level) (group_members Cleanup conn_nodes) levels)
      else Some levels)"

definition refine_levels_by_function_type ::
  "(nat \<times> int) list \<Rightarrow> (nat \<times> string) list \<Rightarrow> (nat \<Rightarrow> nat list option) \<Rightarrow> (nat \<times> int) list option" where
  "refine_levels_by_function_type levels conn_nodes inc =
     (case refine_errors levels conn_nodes inc of
        None \<Rightarrow> None
      | Some levels1 \<Rightarrow> refine_cleanup levels1 conn_nodes inc)"

subsection \<open>Level assignment: the remaining connected nodes\<close>

definition assign_remaining ::
  "(nat \<Rightarrow> nat list option) \<Rightarrow> nat \<Rightarrow> (nat \<times> int) list \<Rightarrow> (nat \<times> int) list option" where
  "assign_remaining inc node levels =
     (if node \<notin> set (dict_keys levels) then
        (case inc node of
           None \<Rightarrow> None
         | Some parents \<Rightarrow>
             if parents \<noteq> [] then
               map_option (\<lambda>max_parent_level. dict_set levels node (max_parent_level + 1))
                 (py_max (map (level_or_0 levels) parents))
             else Some (dict_set levels node 0))
      else Some levels)"

text \<open>The three passes up to the line where the crowded levels are split.\<close>

definition bfs_phase :: "(nat \<times> string) list \<Rightarrow> (nat \<times> nat) list \<Rightarrow> (nat \<times> int) list option" where
  "bfs_phase nodes edges =
     (case find_roots nodes edges (connected_nodes nodes edges) of
        None \<Rightarrow> None
      | Some roots \<Rightarrow>
          bfs_levels nodes edges (dict_keys (connected_nodes nodes edges))
            (map (\<lambda>root. (root, 0)) roots) {} [])"

definition refine_phase :: "(nat \<times> string) list \<Rightarrow> (nat \<times> nat) list \<Rightarrow> (nat \<times> int) list option" where
  "refine_phase nodes edges =
     (case bfs_phase nodes edges of
        None \<Rightarrow> None
      | Some levels \<Rightarrow>
          refine_levels_by_function_type levels (connected_nodes nodes edges) (incoming nodes edges))"

definition assign_levels :: "(nat \<times> string) list \<Rightarrow> (nat \<times> nat) list \<Rightarrow> (nat \<times> int) list option" where
  "assign_levels nodes edges =
     (case refine_phase nodes edges of
        None \<Rightarrow> None
      | Some levels \<Rightarrow>
          fold_option (assign_remaining (incoming nodes edges))
            (dict_keys (connected_nodes nodes edges)) levels)"

subsection \<open>Crowded levels\<close>

text \<open>
  Up to here every level is a Python \<open>int\<close>. Splitting a crowded level adds \<open>0.5\<close>,
  a float. Python compares and hashes \<open>int\<close> and \<open>float\<close> by their numeric value, so
  from here on a level is a rational number and the levels assigned so far are
  embedded.
\<close>

definition add_to_group :: "nat \<times> rat \<Rightarrow> (rat \<times> nat list) list \<Rightarrow> (rat \<times> nat list) list" where
  "add_to_group entry level_groups =
     (case map_of level_groups (snd entry) of
        None \<Rightarrow> dict_set level_groups (snd entry) [fst entry]
      | Some members \<Rightarrow> dict_set level_groups (snd entry) (members @ [fst entry]))"

definition level_groups_of :: "(nat \<times> rat) list \<Rightarrow> (rat \<times> nat list) list" where
  "level_groups_of levels = fold add_to_group levels []"

definition max_nodes_per_level :: nat where
  "max_nodes_per_level = 8"

text \<open>
  \<open>len(outgoing[n]) > 1 or any(keyword in self.simple_to_label[n].lower() ...)\<close>; the
  label is read only when the first test fails.
\<close>

definition is_important :: "(nat \<times> string) list \<Rightarrow> (nat \<times> nat) list \<Rightarrow> nat \<Rightarrow> bool option" where
  "is_important nodes edges n =
     (case outgoing nodes edges n of
        None \<Rightarrow> None
      | Some outs \<Rightarrow>
          if length outs > 1 then Some True
          else (case map_of nodes n of
                  None \<Rightarrow> None
                | Some label \<Rightarrow> Some (any_in [''main'', ''init'', ''setup'', ''create'', ''start''] (lower label))))"

text \<open>One iteration of the loop over \<open>sorted(level_groups.keys())\<close>.\<close>

definition split_level ::
  "(nat \<times> string) list \<Rightarrow> (nat \<times> nat) list \<Rightarrow> rat
     \<Rightarrow> (rat \<times> nat list) list \<times> (nat \<times> rat) list
     \<Rightarrow> ((rat \<times> nat list) list \<times> (nat \<times> rat) list) option" where
  "split_level nodes edges level acc =
     (case map_of (fst acc) level of
        None \<Rightarrow> None
      | Some nodes_in_level \<Rightarrow>
          if length nodes_in_level > max_nodes_per_level then
            (case with_keys (is_important nodes edges) nodes_in_level of
               None \<Rightarrow> None
             | Some flagged \<Rightarrow>
                 let important_nodes = map fst (filter snd flagged);
                     regular_nodes = filter (\<lambda>n. n \<notin> set important_nodes) nodes_in_level;
                     level_groups = dict_set (fst acc) level important_nodes
                 in if regular_nodes \<noteq> [] then
                      Some (dict_set level_groups (level + 1 / 2) regular_nodes,
                            fold (\<lambda>node levels. dict_set levels node (level + 1 / 2)) regular_nodes (snd acc))
                    else Some (level_groups, snd acc))
          else Some acc)"

definition rational_levels :: "(nat \<times> int) list \<Rightarrow> (nat \<times> rat) list" where
  "rational_levels levels = map (\<lambda>(node, level). (node, of_int level)) levels"

text \<open>\<open>level_groups\<close> and \<open>levels\<close> as they are when the positions are computed.\<close>

definition split_crowded ::
  "(nat \<times> string) list \<Rightarrow> (nat \<times> nat) list \<Rightarrow> ((rat \<times> nat list) list \<times> (nat \<times> rat) list) option" where
  "split_crowded nodes edges =
     (case assign_levels nodes edges of
        None \<Rightarrow> None
      | Some levels \<Rightarrow>
          fold_option (split_level nodes edges)
            (py_sorted id (dict_keys (level_groups_of (rational_levels levels))))
            (level_groups_of (rational_levels levels), rational_levels levels))"

subsection \<open>Node sizes\<close>

definition get_node_font_size :: "string \<Rightarrow> bool \<Rightarrow> nat" where
  "get_node_font_size label is_isolated =
     (if is_isolated then 10
      else if any_in [''main'', ''__main__'', ''main()'', ''int main''] (lower label) then 12
      else if any_in [''__init__'', ''constructor'', ''destructor'', ''~'', ''setup'', ''start'', ''begin'', ''run'']
                (lower label) then 11
      else if any_in [''error'', ''fail'', ''exception'', ''abort'', ''throw'', ''catch'', ''except'']
                (lower label) then 11
      else if any_in [''test'', ''unittest'', ''pytest'', ''assert'', ''check''] (lower label) then 10
      else 11)"

definition char_width :: "nat \<Rightarrow> rat" where
  "char_width font_size =
     (if font_size = 9 then 11 / 2 else if font_size = 10 then 6 else if font_size = 11 then 13 / 2
      else if font_size = 12 then 7 else if font_size = 13 then 15 / 2 else if font_size = 14 then 8
      else if font_size = 16 then 9 else 13 / 2)"

text \<open>
  The widths are multiples of one half, exact as floats; \<open>int(x)\<close> of a value that is
  not negative is its floor.
\<close>

definition calculate_node_size :: "string \<Rightarrow> nat \<Rightarrow> bool \<Rightarrow> int \<times> int" where
  "calculate_node_size label font_size is_isolated =
     (let text_width = of_nat (length label) * char_width font_size;
          calculated_width = max 100 (min 300 (text_width + 20));
          line_height = int font_size + 4;
          calculated_height =
            (if text_width > 300 - 20 then
               let lines_needed = max 1 (\<lfloor>text_width / (300 - 20)\<rfloor> + 1)
               in max 50 (min 100 (lines_needed * line_height + 20))
             else max 50 (line_height + 20));
          width = (if is_isolated then max (100 - 10) (calculated_width - 10) else calculated_width);
          height = (if is_isolated then max (50 - 5) (calculated_height - 5) else calculated_height)
      in (\<lfloor>width\<rfloor>, height))"

definition node_size_of :: "nat list \<Rightarrow> nat \<times> string \<Rightarrow> int \<times> int" where
  "node_size_of isolated entry =
     calculate_node_size (snd entry) (get_node_font_size (snd entry) (fst entry \<in> set isolated))
       (fst entry \<in> set isolated)"

definition node_sizes_of :: "(nat \<times> string) list \<Rightarrow> nat list \<Rightarrow> (nat \<times> (int \<times> int)) list" where
  "node_sizes_of nodes isolated =
     fold (\<lambda>entry node_sizes. dict_set node_sizes (fst entry) (node_size_of isolated entry)) nodes []"

definition max_node_width_of :: "(nat \<times> string) list \<Rightarrow> nat list \<Rightarrow> int" where
  "max_node_width_of nodes isolated = fold (\<lambda>entry m. max m (fst (node_size_of isolated entry))) nodes 0"

definition max_node_height_of :: "(nat \<times> string) list \<Rightarrow> nat list \<Rightarrow> int" where
  "max_node_height_of nodes isolated = fold (\<lambda>entry m. max m (snd (node_size_of isolated entry))) nodes 0"

subsection \<open>Spacing and canvas\<close>

definition level_spacing_of :: "nat \<Rightarrow> int \<Rightarrow> int" where
  "level_spacing_of total_nodes max_node_height =
     (if total_nodes \<le> 10 then max 220 (max_node_height + 150)
      else if total_nodes \<le> 30 then max 250 (max_node_height + 180)
      else if total_nodes \<le> 60 then max 280 (max_node_height + 200)
      else max 320 (max_node_height + 220))"

definition base_node_spacing_of :: "nat \<Rightarrow> int \<Rightarrow> int" where
  "base_node_spacing_of total_nodes max_node_width =
     (if total_nodes \<le> 10 then max 280 (max_node_width + 120)
      else if total_nodes \<le> 30 then max 320 (max_node_width + 140)
      else if total_nodes \<le> 60 then max 360 (max_node_width + 160)
      else max 400 (max_node_width + 180))"

definition max_nodes_in_level_of :: "(rat \<times> nat list) list \<Rightarrow> int" where
  "max_nodes_in_level_of level_groups =
     (case level_groups of
        [] \<Rightarrow> 1
      | g # gs \<Rightarrow> fold (\<lambda>level_nodes m. max m (int (length (snd level_nodes)))) gs (int (length (snd g))))"

definition main_graph_width_of :: "nat \<Rightarrow> int \<Rightarrow> int \<Rightarrow> int" where
  "main_graph_width_of total_nodes max_nodes_in_level base_node_spacing =
     (if total_nodes \<le> 20 then max 1200 (max_nodes_in_level * base_node_spacing + 600)
      else if total_nodes \<le> 50 then max 1600 (max_nodes_in_level * base_node_spacing + 800)
      else max 2200 (max_nodes_in_level * base_node_spacing + 1000))"

definition isolated_area_width_of :: "nat \<Rightarrow> int" where
  "isolated_area_width_of n_isolated =
     (if n_isolated = 0 then 0 else if n_isolated \<le> 5 then 400 else if n_isolated \<le> 15 then 550 else 700)"

subsection \<open>Positions of the ranked nodes\<close>

definition get_function_category_order :: "string \<Rightarrow> nat" where
  "get_function_category_order label =
     (if any_in [''main'', ''__main__'', ''main()''] (lower label) then 1
      else if any_in [''__init__'', ''constructor'', ''setup''] (lower label) then 2
      else if any_in [''config'', ''configure'', ''initialize''] (lower label) then 3
      else if any_in [''start'', ''begin'', ''run'', ''execute''] (lower label) then 4
      else if any_in [''read'', ''input'', ''receive'', ''get''] (lower label) then 5
      else if any_in [''process'', ''handle'', ''calculate'', ''compute''] (lower label) then 6
      else if any_in [''validate'', ''check'', ''verify''] (lower label) then 7
      else if any_in [''write'', ''output'', ''send'', ''transmit''] (lower label) then 8
      else if any_in [''update'', ''modify'', ''change''] (lower label) then 9
      else if any_in [''save'', ''store'', ''persist''] (lower label) then 10
      else if any_in [''timer'', ''delay'', ''wait'', ''sleep''] (lower label) then 11
      else if any_in [''cleanup'', ''close'', ''finalize''] (lower label) then 12
      else if any_in [''error'', ''fail'', ''exception''] (lower label) then 13
      else if any_in [''test'', ''debug'', ''trace''] (lower label) then 14
      else if any_in [''helper'', ''utility'', ''util''] (lower label) then 15
      else 6)"

definition level_sort_key ::
  "(nat \<times> string) list \<Rightarrow> (nat \<times> nat) list \<Rightarrow> nat \<Rightarrow> (int \<times> int \<times> int \<times> nat \<times> string) option" where
  "level_sort_key nodes edges x =
     (case map_of nodes x of
        None \<Rightarrow> None
      | Some label \<Rightarrow>
          (case outgoing nodes edges x of
             None \<Rightarrow> None
           | Some outs \<Rightarrow>
               (case incoming nodes edges x of
                  None \<Rightarrow> None
                | Some ins \<Rightarrow>
                    Some (- get_execution_priority label (length outs) (length ins),
                          - int (length outs), - int (length ins),
                          get_function_category_order label, lower label))))"

definition node_spacing_of :: "int \<Rightarrow> int \<Rightarrow> int \<Rightarrow> int" where
  "node_spacing_of n_level_nodes base_node_spacing main_graph_width =
     (if n_level_nodes > 12 then max 280 (main_graph_width div (n_level_nodes + 1))
      else if n_level_nodes > 8 then max 320 (main_graph_width div (n_level_nodes + 1))
      else if n_level_nodes > 4 then max (base_node_spacing + 60) (main_graph_width div (n_level_nodes + 1))
      else base_node_spacing + 80)"

definition start_x_of :: "int \<Rightarrow> int \<Rightarrow> int \<Rightarrow> int" where
  "start_x_of n_level_nodes node_spacing main_graph_width =
     max 200 ((main_graph_width - (n_level_nodes - 1) * node_spacing) div 2)"

text \<open>One iteration of the loop over \<open>sorted_levels\<close>.\<close>

definition place_level ::
  "(nat \<times> string) list \<Rightarrow> (nat \<times> nat) list \<Rightarrow> (rat \<times> nat list) list \<Rightarrow> int \<Rightarrow> int \<Rightarrow> int \<Rightarrow> rat
     \<Rightarrow> (nat \<times> (int \<times> rat)) list \<Rightarrow> (nat \<times> (int \<times> rat)) list option" where
  "place_level nodes edges level_groups level_spacing base_node_spacing main_graph_width level positions =
     (case map_of level_groups level of
        None \<Rightarrow> None
      | Some level_nodes \<Rightarrow>
          let node_spacing = node_spacing_of (int (length level_nodes)) base_node_spacing main_graph_width;
              start_x = start_x_of (int (length level_nodes)) node_spacing main_graph_width
          in (case sorted_by (level_sort_key nodes edges) level_nodes of
                None \<Rightarrow> None
              | Some sorted_level_nodes \<Rightarrow>
                  Some (fold (\<lambda>(i, node) positions.
                                dict_set positions node
                                  (start_x + int i * node_spacing, 200 + level * of_int level_spacing))
                          (enumerate 0 sorted_level_nodes) positions)))"

subsection \<open>Positions of the isolated nodes\<close>

definition isolated_category :: "string \<Rightarrow> nat" where
  "isolated_category label =
     (if any_in [''main'', ''__main__'', ''init'', ''setup''] label then 1
      else if any_in [''config'', ''configure'', ''initialize''] label then 2
      else if any_in [''read'', ''input'', ''get''] label then 3
      else if any_in [''process'', ''calculate'', ''compute''] label then 4
      else if any_in [''write'', ''output'', ''send''] label then 5
      else if any_in [''validate'', ''check'', ''verify''] label then 6
      else if any_in [''timer'', ''delay'', ''wait''] label then 7
      else if any_in [''update'', ''modify'', ''set''] label then 8
      else if any_in [''save'', ''store'', ''persist''] label then 9
      else if any_in [''cleanup'', ''close'', ''finalize''] label then 10
      else if any_in [''test'', ''check'', ''assert''] label then 11
      else if any_in [''error'', ''fail'', ''exception''] label then 12
      else if any_in [''helper'', ''utility'', ''util''] label then 13
      else 7)"

definition get_isolated_node_priority :: "(nat \<times> string) list \<Rightarrow> nat \<Rightarrow> (nat \<times> string) option" where
  "get_isolated_node_priority nodes node =
     map_option (\<lambda>label. (isolated_category (lower label), lower label)) (map_of nodes node)"

definition isolated_cols_of :: "nat \<Rightarrow> nat" where
  "isolated_cols_of n_isolated = (if n_isolated \<le> 6 then 1 else if n_isolated \<le> 18 then 2 else 3)"

definition isolated_gap_of :: "nat \<Rightarrow> int" where
  "isolated_gap_of n_isolated = (if n_isolated \<le> 6 then 150 else if n_isolated \<le> 18 then 180 else 200)"

definition place_isolated ::
  "(nat \<times> string) list \<Rightarrow> nat list \<Rightarrow> int \<Rightarrow> int \<Rightarrow> int
     \<Rightarrow> (nat \<times> (int \<times> rat)) list \<Rightarrow> (nat \<times> (int \<times> rat)) list option" where
  "place_isolated nodes isolated main_graph_width max_node_width max_node_height positions =
     (if isolated \<noteq> [] then
        let isolated_cols = isolated_cols_of (length isolated);
            isolated_start_x = main_graph_width + isolated_gap_of (length isolated);
            isolated_spacing_x = max_node_width + 60;
            isolated_spacing_y = max_node_height + 50
        in (case sorted_by (get_isolated_node_priority nodes) isolated of
              None \<Rightarrow> None
            | Some sorted_isolated \<Rightarrow>
                Some (fold (\<lambda>(i, node) positions.
                              dict_set positions node
                                (isolated_start_x + int (i mod isolated_cols) * isolated_spacing_x,
                                 200 + of_int (int (i div isolated_cols) * isolated_spacing_y)))
                        (enumerate 0 sorted_isolated) positions))
      else Some positions)"

subsection \<open>The layout\<close>

text \<open>The local \<open>main_graph_width\<close>, for the level groups at hand.\<close>

definition layout_main_graph_width :: "(nat \<times> string) list \<Rightarrow> (nat \<times> nat) list \<Rightarrow> (rat \<times> nat list) list \<Rightarrow> int" where
  "layout_main_graph_width nodes edges level_groups =
     main_graph_width_of (length nodes) (max_nodes_in_level_of level_groups)
       (base_node_spacing_of (length nodes) (max_node_width_of nodes (isolated_nodes nodes edges)))"

text \<open>
  The result is the tuple the function returns: \<open>positions\<close>, \<open>node_sizes\<close>,
  \<open>max_node_width\<close>, \<open>max_node_height\<close>, \<open>len(isolated_nodes)\<close>, \<open>canvas_width\<close>.
\<close>

definition calculate_hierarchical_layout ::
  "(nat \<times> string) list \<Rightarrow> (nat \<times> nat) list
     \<Rightarrow> ((nat \<times> (int \<times> rat)) list \<times> (nat \<times> (int \<times> int)) list \<times> int \<times> int \<times> nat \<times> int) option" where
  "calculate_hierarchical_layout nodes edges =
     (case split_crowded nodes edges of
        None \<Rightarrow> None
      | Some (level_groups, levels) \<Rightarrow>
          let isolated = isolated_nodes nodes edges;
              node_sizes = node_sizes_of nodes isolated;
              max_node_width = max_node_width_of nodes isolated;
              max_node_height = max_node_height_of nodes isolated;
              level_spacing = level_spacing_of (length nodes) max_node_height;
              base_node_spacing = base_node_spacing_of (length nodes) max_node_width;
              main_graph_width = layout_main_graph_width nodes edges level_groups;
              canvas_width = main_graph_width + isolated_area_width_of (length isolated)
          in (case fold_option
                     (place_level nodes edges level_groups level_spacing base_node_spacing main_graph_width)
                     (py_sorted id (dict_keys level_groups)) [] of
                None \<Rightarrow> None
              | Some ranked_positions \<Rightarrow>
                  (case place_isolated nodes isolated main_graph_width max_node_width max_node_height
                          ranked_positions of
                     None \<Rightarrow> None
                   | Some positions \<Rightarrow>
                       Some (positions, node_sizes, max_node_width, max_node_height, length isolated,
                             canvas_width))))"

subsection \<open>The emitter's node loop (\<open>convert_to_drawio\<close>)\<close>

text \<open>
  For every entry of \<open>simple_to_label\<close> the emitter reads \<open>node_positions[node_id]\<close> and
  \<open>node_sizes[node_id]\<close>; the result is the geometry of the node cells, or \<open>None\<close> when a
  lookup raises.
\<close>

definition node_geometry ::
  "(nat \<times> (int \<times> rat)) list \<Rightarrow> (nat \<times> (int \<times> int)) list \<Rightarrow> nat \<Rightarrow> (nat \<times> (int \<times> rat) \<times> (int \<times> int)) option" where
  "node_geometry node_positions node_sizes node_id =
     (case map_of node_positions node_id of
        None \<Rightarrow> None
      | Some position \<Rightarrow>
          (case map_of node_sizes node_id of
             None \<Rightarrow> None
           | Some box \<Rightarrow> Some (node_id, position, box)))"

definition node_cells ::
  "(nat \<times> string) list \<Rightarrow> (nat \<times> nat) list \<Rightarrow> (nat \<times> (int \<times> rat) \<times> (int \<times> int)) list option" where
  "node_cells nodes edges =
     (case calculate_hierarchical_layout nodes edges of
        None \<Rightarrow> None
      | Some (node_positions, node_sizes, max_node_width, max_node_height, isolated_count, total_canvas_width) \<Rightarrow>
          those (map (node_geometry node_positions node_sizes) (dict_keys nodes)))"

section \<open>Example inputs\<close>

text \<open>
  Two call-graph files in the manner of the end-to-end scenario: the second declares
  \<open>main\<close> and \<open>init_config\<close> again, the first also declares a \<open>Main\<close> that merges with
  \<open>main\<close>, a node whose label is the reserved word \<open>node\<close>, a node whose label cleans
  to nothing, and one edge twice.
\<close>

definition scenario_doc1 :: dot_file where
  "scenario_doc1 = \<lparr>basename = ''main_8c_cgraph.dot'', readable = True, has_digraph = True,
     node_matches = [(''Node1'', ''main''), (''Node2'', ''init_config''), (''Node3'', ''process_data''),
                     (''Node4'', ''Main''), (''Node5'', ''node''), (''Node6'', ''()'')],
     edge_matches = [(''Node1'', ''Node2''), (''Node2'', ''Node3''), (''Node1'', ''Node4''),
                     (''Node1'', ''Node2''), (''Node5'', ''Node1'')]\<rparr>"

definition scenario_doc2 :: dot_file where
  "scenario_doc2 = \<lparr>basename = ''util_8c_cgraph.dot'', readable = True, has_digraph = True,
     node_matches = [(''Node1'', ''main''), (''Node2'', ''cleanup''), (''Node7'', ''init_config'')],
     edge_matches = [(''Node1'', ''Node2''), (''Node1'', ''Node7'')]\<rparr>"

text \<open>A ring of \<open>n\<close> functions, each calling the next: no node is free of incoming edges.\<close>

definition ring_nodes :: "nat \<Rightarrow> (nat \<times> string) list" where
  "ring_nodes n = map (\<lambda>i. (i, ''f'' @ string_of_nat i)) [0..<n]"

definition ring_edges :: "nat \<Rightarrow> (nat \<times> nat) list" where
  "ring_edges n = map (\<lambda>i. (i, if i + 1 = n then 0 else i + 1)) [0..<n]"

text \<open>
  A call chain from \<open>main\<close> with a cleanup function called by \<open>main\<close> that calls into
  the chain, and a triangle of three functions without any role keyword.
\<close>

definition chain_nodes :: "(nat \<times> string) list" where
  "chain_nodes = [(1, ''main''), (2, ''alpha''), (3, ''beta''), (4, ''gamma''), (5, ''delta''), (6, ''close_all'')]"

definition chain_edges :: "(nat \<times> nat) list" where
  "chain_edges = [(1, 2), (2, 3), (3, 4), (4, 5), (1, 6), (6, 3)]"

definition triangle_nodes :: "(nat \<times> string) list" where
  "triangle_nodes = [(1, ''foo''), (2, ''bar''), (3, ''baz'')]"

definition triangle_edges :: "(nat \<times> nat) list" where
  "triangle_edges = [(1, 2), (1, 3), (3, 2)]"

text \<open>The chain with two more functions that nothing calls and that call nothing.\<close>

definition side_nodes :: "(nat \<times> string) list" where
  "side_nodes = chain_nodes @ [(7, ''helper_x''), (8, ''get_value'')]"

text \<open>
  A call-graph file as Doxygen writes it, with the three declarations and the three
  edges of the triangle: each declaration is matched by the first, the third and the
  fourth node pattern, each edge by both edge patterns.
\<close>

definition triangle_doc :: dot_file where
  "triangle_doc = \<lparr>basename = ''foo_8c_cgraph.dot'', readable = True, has_digraph = True,
     node_matches = [(''Node1'', ''foo''), (''Node2'', ''bar''), (''Node3'', ''baz''),
                     (''Node1'', ''foo''), (''Node2'', ''bar''), (''Node3'', ''baz''),
                     (''Node1'', ''foo''), (''Node2'', ''bar''), (''Node3'', ''baz'')],
     edge_matches = [(''Node1'', ''Node2''), (''Node1'', ''Node3''), (''Node3'', ''Node2''),
                     (''Node1'', ''Node2''), (''Node1'', ''Node3''), (''Node3'', ''Node2'')]\<rparr>"

text \<open>
  Nine declarations of one file: the first has a label of which cleaning leaves
  nothing, the others have ordinary labels. After them the counter is 10.
\<close>

definition anonymous_nodes :: "(string \<times> string) list" where
  "anonymous_nodes = [(''Node1'', ''()''), (''Node2'', ''alpha''), (''Node3'', ''bravo''),
     (''Node4'', ''charlie''), (''Node5'', ''delta''), (''Node6'', ''echo''), (''Node7'', ''foxtrot''),
     (''Node8'', ''golf''), (''Node9'', ''hotel'')]"

definition anonymous_state :: converter where
  "anonymous_state = fst (fold (process_node ''a.dot'') anonymous_nodes (init_converter, []))"

section \<open>Auxiliary predicates of the proofs\<close>

definition edges_ok :: "(nat \<times> nat) list \<Rightarrow> bool" where
  "edges_ok es = (distinct es \<and> (\<forall>(s, t) \<in> set es. s \<noteq> t))"

definition ranked_below_parent ::
  "(nat \<times> string) list \<Rightarrow> (nat \<times> nat) list \<Rightarrow> (nat \<times> int) list \<Rightarrow> nat \<Rightarrow> int \<Rightarrow> bool" where
  "ranked_below_parent nodes edges levels n l =
     (l = 0 \<or> (\<exists>p parents. incoming nodes edges n = Some parents \<and> p \<in> set parents
                  \<and> map_of levels p = Some (l - 1)))"

text \<open>The nodes that some level group holds.\<close>

definition group_nodes :: "(rat \<times> nat list) list \<Rightarrow> nat set" where
  "group_nodes level_groups = {n. \<exists>level members. map_of level_groups level = Some members \<and> n \<in> set members}"

section \<open>Label similarity: the documented examples\<close>

lemma normalize_get_data: "normalize_label ''get_data'' = ''getdata''"
  by code_simp

lemma normalize_getData: "normalize_label ''getData'' = ''getdata''"
  by code_simp

text \<open>
  C3, counterexample. The claim says that \<open>initialize\<close> and \<open>init\<close> merge. On the code
  they do not: the normalised lengths are 10 and 4, beyond the 1.5 ratio, and removing
  the prefix patterns leaves two different strings.
\<close>

theorem initialize_init_not_similar:
  "\<not> are_labels_similar ''initialize'' ''init''"
  by code_simp

text \<open>
  C3, as amended. \<open>get_data\<close> and \<open>getData\<close> both normalise to \<open>getdata\<close> and are similar;
  \<open>initialize\<close> and \<open>init\<close> are not similar; \<open>processOrder\<close> and
  \<open>processOrderValidation\<close> are not similar, the normalised lengths 12 and 22 being
  beyond the 1.5 ratio.
\<close>

theorem are_labels_similar_examples:
  "normalize_label ''get_data'' = ''getdata'' \<and> normalize_label ''getData'' = ''getdata''
   \<and> are_labels_similar ''get_data'' ''getData''
   \<and> \<not> are_labels_similar ''initialize'' ''init''
   \<and> \<not> are_labels_similar ''init'' ''initialize''
   \<and> \<not> are_labels_similar ''processOrder'' ''processOrderValidation''
   \<and> 2 * length (normalize_label ''processOrderValidation'')
        > 3 * length (normalize_label ''processOrder'')"
  by code_simp

section \<open>Edge styles: what the style depends on\<close>

text \<open>
  C5, counterexample. Two edges with the same labels and the same downward direction,
  one with a horizontal distance of 400 and one of 0, get different styles: the first
  carries \<open>noEdgeStyle=1\<close>.
\<close>

theorem edge_style_depends_on_distance:
  "get_edge_style ''a'' ''b'' (0::int) 0 400 100 \<noteq> get_edge_style ''a'' ''b'' (0::int) 0 0 100"
  by code_simp

text \<open>
  C5, as amended. Two edges that agree on the flow direction, on the role signals read
  from the source and target labels, and on which of the thresholds 150, 200 and 300
  the horizontal distance \<open>|target_x - source_x|\<close> exceeds, get the same style string.
\<close>

theorem edge_style_determined:
  fixes source_x source_y target_x target_y :: "'a::linordered_idom"
    and source_x' source_y' target_x' target_y' :: "'a"
  assumes dir: "flow_direction source_y target_y = flow_direction source_y' target_y'"
    and src: "source_signal source_label = source_signal source_label'"
    and tgt: "target_signal target_label = target_signal target_label'"
    and dist: "distance_class source_x target_x = distance_class source_x' target_x'"
  shows "get_edge_style source_label target_label source_x source_y target_x target_y
       = get_edge_style source_label' target_label' source_x' source_y' target_x' target_y'"
proof -
  have down: "(source_y < target_y) = (source_y' < target_y')"
    using dir by (auto simp: flow_direction_def split: if_splits)
  have up: "(target_y < source_y) = (target_y' < source_y')"
    using dir by (auto simp: flow_direction_def split: if_splits)
  have lat: "(target_y = source_y) = (target_y' = source_y')"
    using dir by (auto simp: flow_direction_def split: if_splits)
  have main: "is_main_entry source_label = is_main_entry source_label'"
    using src by (simp add: source_signal_def)
  have sig: "is_error_handling target_label = is_error_handling target_label'"
    "is_utility_call target_label = is_utility_call target_label'"
    "is_io_operation target_label = is_io_operation target_label'"
    "is_cleanup target_label = is_cleanup target_label'"
    "is_timing target_label = is_timing target_label'"
    using tgt by (simp_all add: target_signal_def)
  have d: "(150 < \<bar>target_x - source_x\<bar>) = (150 < \<bar>target_x' - source_x'\<bar>)"
    "(200 < \<bar>target_x - source_x\<bar>) = (200 < \<bar>target_x' - source_x'\<bar>)"
    "(300 < \<bar>target_x - source_x\<bar>) = (300 < \<bar>target_x' - source_x'\<bar>)"
    using dist by (simp_all add: distance_class_def)
  show ?thesis
    unfolding get_edge_style_def Let_def
    by (simp only: down up lat main sig d)
qed

text \<open>C5, witness: two different downward edges into an I/O target.\<close>

theorem edge_style_determined_witness:
  "flow_direction (0::int) 100 = flow_direction (50::int) 300
   \<and> source_signal ''main'' = source_signal ''init_all''
   \<and> target_signal ''read_x'' = target_signal ''write_y''
   \<and> distance_class (0::int) 10 = distance_class (5::int) 100
   \<and> get_edge_style ''main'' ''read_x'' (0::int) 0 10 100 = get_edge_style ''init_all'' ''write_y'' (5::int) 50 100 300"
proof -
  have 1: "flow_direction (0::int) 100 = flow_direction (50::int) 300" by code_simp
  have 2: "source_signal ''main'' = source_signal ''init_all''" by code_simp
  have 3: "target_signal ''read_x'' = target_signal ''write_y''" by code_simp
  have 4: "distance_class (0::int) 10 = distance_class (5::int) 100" by code_simp
  from edge_style_determined [OF 1 2 3 4] 1 2 3 4 show ?thesis by simp
qed

section \<open>Label cleaning: truncation\<close>

text \<open>
  C7, counterexample. A label of 23 characters is longer than 22 and is returned as it
  is: not cut to 22 characters, not ending in an ellipsis, not 25 characters long.
\<close>

theorem label_23_not_truncated:
  "length (clean_text ''abcdefghijklmnopqrstuvw'') = 23
   \<and> clean_node_label 1 ''abcdefghijklmnopqrstuvw'' = ''abcdefghijklmnopqrstuvw''
   \<and> clean_node_label 1 ''abcdefghijklmnopqrstuvw'' \<noteq> take 22 (clean_text ''abcdefghijklmnopqrstuvw'') @ ''...''
   \<and> length (clean_node_label 1 ''abcdefghijklmnopqrstuvw'') \<noteq> 25"
  by code_simp

text \<open>
  C7, as amended. The threshold is 25: a label whose cleaned form is longer than 25
  characters is cut to its first 22 characters followed by \<open>...\<close>, 25 characters in
  all; a cleaned form of at most 25 characters is returned unchanged. So the result has
  at most 25 characters.
\<close>

theorem clean_node_label_truncation:
  assumes "clean_text label \<noteq> []"
  shows "(25 < length (clean_text label) \<longrightarrow>
            clean_node_label counter label = take 22 (clean_text label) @ ''...''
            \<and> length (clean_node_label counter label) = 25)
       \<and> (length (clean_text label) \<le> 25 \<longrightarrow> clean_node_label counter label = clean_text label)
       \<and> length (clean_node_label counter label) \<le> 25"
proof -
  have "label \<noteq> []" using assms by (auto simp: clean_text_def strip_char_def strip_ws_def)
  then show ?thesis using assms
    by (auto simp: clean_node_label_def truncate_label_def Let_def)
qed

text \<open>C7, witness: a label of 26 characters and one of 12.\<close>

theorem clean_node_label_truncation_witness:
  "clean_text ''abcdefghijklmnopqrstuvwxyz'' \<noteq> []
   \<and> 25 < length (clean_text ''abcdefghijklmnopqrstuvwxyz'')
   \<and> clean_node_label 1 ''abcdefghijklmnopqrstuvwxyz'' = ''abcdefghijklmnopqrstuv...''
   \<and> length (clean_text ''process_data'') \<le> 25
   \<and> clean_node_label 1 ''process_data'' = ''process_data''"
proof -
  have a: "clean_text ''abcdefghijklmnopqrstuvwxyz'' = ''abcdefghijklmnopqrstuvwxyz''" by code_simp
  have b: "clean_text ''process_data'' = ''process_data''" by code_simp
  have a': "clean_text ''abcdefghijklmnopqrstuvwxyz'' \<noteq> []" by (simp add: a)
  have b': "clean_text ''process_data'' \<noteq> []" by (simp add: b)
  from clean_node_label_truncation [OF a', of 1] clean_node_label_truncation [OF b', of 1] a b
  show ?thesis by simp
qed

section \<open>Ingestion: empty and reserved labels\<close>

lemma string_of_nat_nonempty: "string_of_nat n \<noteq> []"
  by (subst string_of_nat.simps) simp

lemma string_of_nat_length: "0 < k \<Longrightarrow> n < 10 ^ k \<Longrightarrow> length (string_of_nat n) \<le> k"
proof (induction n arbitrary: k rule: string_of_nat.induct)
  case (1 n)
  show ?case
  proof (cases "n < 10")
    case True
    then show ?thesis using "1.prems"(1) by (subst string_of_nat.simps) simp
  next
    case False
    obtain j where j: "k = Suc j"
      using "1.prems"(1) by (cases k) auto
    have "j \<noteq> 0"
    proof
      assume "j = 0"
      with j "1.prems"(2) False show False by simp
    qed
    with j have k: "k = Suc j" "0 < j" by simp_all
    from "1.prems"(2) k have "n div 10 < 10 ^ j"
      by (simp add: less_mult_imp_div_less mult.commute)
    from "1.IH" [OF False k(2) this] False k show ?thesis
      by (subst string_of_nat.simps) simp
  qed
qed

lemma map_of_dict_set: "map_of (dict_set d k v) = (map_of d)(k \<mapsto> v)"
  by (simp add: dict_set_def update_conv')

lemma lower_Node_word: "lower ''Node'' = ''node''"
  by code_simp

lemma lower_Node: "lower (''Node'' @ x) = ''node'' @ lower x"
proof -
  have "lower (''Node'' @ x) = lower ''Node'' @ lower x"
    unfolding lower_def by (rule map_append)
  then show ?thesis by (simp only: lower_Node_word)
qed

lemma synthetic_not_reserved:
  assumes "l = synthetic_label c \<or> l = truncate_label (synthetic_label c)"
  shows "l \<noteq> [] \<and> lower l \<notin> set reserved_labels"
proof -
  obtain d ds where d: "string_of_nat c = d # ds"
    using string_of_nat_nonempty [of c] by (cases "string_of_nat c") auto
  have "\<exists>x. x \<noteq> [] \<and> l = ''Node'' @ x"
    using assms d by (auto simp: synthetic_label_def truncate_label_def)
  then obtain x where x: "x \<noteq> []" "l = ''Node'' @ x" by blast
  then obtain y ys where "x = y # ys" by (cases x) auto
  with x have "lower l = ''node'' @ lower (y # ys)" by (simp only: lower_Node)
  then show ?thesis using x by (simp add: reserved_labels_def lower_def)
qed

lemma clean_empty_label:
  assumes "clean_text label = []"
  shows "clean_node_label c label = (if label = [] then synthetic_label c else truncate_label (synthetic_label c))"
  using assms by (simp add: clean_node_label_def Let_def)

lemma synthetic_label_short:
  assumes "c < 10 ^ 21"
  shows "truncate_label (synthetic_label c) = synthetic_label c"
proof -
  have "length (string_of_nat c) \<le> 21"
    using string_of_nat_length [of 21 c] assms by simp
  then show ?thesis by (simp add: truncate_label_def synthetic_label_def)
qed

text \<open>
  A node that \<open>find_similar_node\<close> returns is registered under a label that is equal or
  similar to the one looked up.
\<close>

lemma find_similar_node_Some:
  assumes "find_similar_node st clean_label = Some existing"
  shows "\<exists>existing_label. (existing_label, existing) \<in> set (label_to_simple st)
           \<and> are_labels_similar clean_label existing_label"
proof (cases "map_of (label_to_simple st) clean_label")
  case (Some e)
  with assms have "e = existing" by (simp add: find_similar_node_def)
  with Some have "(clean_label, existing) \<in> set (label_to_simple st)" by (simp add: map_of_SomeD)
  moreover have "are_labels_similar clean_label clean_label" by (simp add: are_labels_similar_def)
  ultimately show ?thesis by blast
next
  case None
  with assms obtain existing_label where
    f: "find (\<lambda>(existing_label, existing_id). are_labels_similar clean_label existing_label) (label_to_simple st)
          = Some (existing_label, existing)"
    by (auto simp: find_similar_node_def split: option.splits)
  then obtain i where i: "i < length (label_to_simple st)" "label_to_simple st ! i = (existing_label, existing)"
    and sim: "are_labels_similar clean_label existing_label"
    by (auto simp: find_Some_iff)
  from i have "(existing_label, existing) \<in> set (label_to_simple st)"
    using nth_mem [of i "label_to_simple st"] by simp
  with sim show ?thesis by blast
qed

text \<open>One turn of the node loop on a declaration not yet seen in its file, by the result of the lookup.\<close>

lemma process_node_minted:
  assumes "scoped_id file_basename original_node_id \<notin> set processed_nodes"
    and "clean_node_label (node_counter st) label \<noteq> []"
    and "lower (clean_node_label (node_counter st) label) \<notin> set reserved_labels"
    and "find_similar_node st (clean_node_label (node_counter st) label) = None"
  shows "fst (process_node file_basename (original_node_id, label) (st, processed_nodes))
     = st\<lparr>label_to_simple := dict_set (label_to_simple st) (clean_node_label (node_counter st) label) (node_counter st),
          simple_to_label := dict_set (simple_to_label st) (node_counter st) (clean_node_label (node_counter st) label),
          file_sources := dict_set (file_sources st) (node_counter st) file_basename,
          node_counter := node_counter st + 1,
          original_to_simple := dict_set (dict_set (original_to_simple st)
             (scoped_id file_basename original_node_id) (node_counter st)) original_node_id (node_counter st)\<rparr>"
  using assms by (simp add: process_node_def Let_def)

lemma process_node_merged:
  assumes "scoped_id file_basename original_node_id \<notin> set processed_nodes"
    and "clean_node_label (node_counter st) label \<noteq> []"
    and "lower (clean_node_label (node_counter st) label) \<notin> set reserved_labels"
    and "find_similar_node st (clean_node_label (node_counter st) label) = Some existing"
  shows "fst (process_node file_basename (original_node_id, label) (st, processed_nodes))
     = st\<lparr>original_to_simple := dict_set (dict_set (original_to_simple st)
             (scoped_id file_basename original_node_id) existing) original_node_id existing\<rparr>"
  using assms by (simp add: process_node_def Let_def)

text \<open>
  C6, counterexample. A node declared with the label \<open>node\<close> keeps that label through
  cleaning, and the node loop skips it: nothing is minted and no alias is recorded.
\<close>

theorem reserved_label_dropped:
  "fst (fold (process_node ''a.dot'') [(''Node5'', ''node'')] (init_converter, [])) = init_converter
   \<and> clean_node_label 1 ''node'' = ''node''"
  by code_simp

text \<open>
  C6, as amended. When cleaning leaves nothing of a label, \<open>clean_node_label\<close> returns
  the synthetic label: \<open>Node\<close> followed by the decimal digits of the counter (for a
  counter of more than 21 digits the label is cut like any other label of more than 25
  characters, unless the raw label was empty). That label is neither empty nor reserved,
  so a declaration not yet seen in its file is not dropped. If no registered label is
  equal or similar to it, a node is minted: the counter becomes its id, the label is
  registered, the counter goes up by one, and both raw ids become aliases of the new
  node. Otherwise the declaration is merged: no node is minted, the registers and the
  counter stay as they are, and both raw ids become aliases of the node found, which is
  registered under an equal or similar label. When the cleaned label is a reserved word,
  the declaration is skipped and the converter is left as it was.
\<close>

theorem empty_synthetic_reserved_skipped:
  "(clean_text label = [] \<longrightarrow>
      clean_node_label (node_counter st) label
        = (if label = [] then synthetic_label (node_counter st)
           else truncate_label (synthetic_label (node_counter st)))
      \<and> (node_counter st < 10 ^ 21 \<longrightarrow>
           clean_node_label (node_counter st) label = ''Node'' @ string_of_nat (node_counter st))
      \<and> clean_node_label (node_counter st) label \<noteq> []
      \<and> lower (clean_node_label (node_counter st) label) \<notin> set reserved_labels
      \<and> (scoped_id file_basename original_node_id \<notin> set processed_nodes \<longrightarrow>
           (find_similar_node st (clean_node_label (node_counter st) label) = None \<longrightarrow>
              simple_to_label (fst (process_node file_basename (original_node_id, label) (st, processed_nodes)))
                = dict_set (simple_to_label st) (node_counter st) (clean_node_label (node_counter st) label)
              \<and> label_to_simple (fst (process_node file_basename (original_node_id, label) (st, processed_nodes)))
                = dict_set (label_to_simple st) (clean_node_label (node_counter st) label) (node_counter st)
              \<and> node_counter (fst (process_node file_basename (original_node_id, label) (st, processed_nodes)))
                = node_counter st + 1
              \<and> map_of (simple_to_label (fst (process_node file_basename (original_node_id, label) (st, processed_nodes))))
                   (node_counter st) = Some (clean_node_label (node_counter st) label)
              \<and> map_of (original_to_simple (fst (process_node file_basename (original_node_id, label) (st, processed_nodes))))
                   original_node_id = Some (node_counter st)
              \<and> map_of (original_to_simple (fst (process_node file_basename (original_node_id, label) (st, processed_nodes))))
                   (scoped_id file_basename original_node_id) = Some (node_counter st))
           \<and> (\<forall>existing. find_similar_node st (clean_node_label (node_counter st) label) = Some existing \<longrightarrow>
                simple_to_label (fst (process_node file_basename (original_node_id, label) (st, processed_nodes)))
                  = simple_to_label st
                \<and> label_to_simple (fst (process_node file_basename (original_node_id, label) (st, processed_nodes)))
                  = label_to_simple st
                \<and> node_counter (fst (process_node file_basename (original_node_id, label) (st, processed_nodes)))
                  = node_counter st
                \<and> (\<exists>existing_label. (existing_label, existing) \<in> set (label_to_simple st)
                      \<and> are_labels_similar (clean_node_label (node_counter st) label) existing_label)
                \<and> map_of (original_to_simple (fst (process_node file_basename (original_node_id, label) (st, processed_nodes))))
                     original_node_id = Some existing
                \<and> map_of (original_to_simple (fst (process_node file_basename (original_node_id, label) (st, processed_nodes))))
                     (scoped_id file_basename original_node_id) = Some existing)))
   \<and> (lower (clean_node_label (node_counter st) label) \<in> set reserved_labels \<longrightarrow>
        fst (process_node file_basename (original_node_id, label) (st, processed_nodes)) = st)"
proof (intro conjI impI allI)
  assume "lower (clean_node_label (node_counter st) label) \<in> set reserved_labels"
  then show "fst (process_node file_basename (original_node_id, label) (st, processed_nodes)) = st"
    by (simp add: process_node_def Let_def)
next
  assume e: "clean_text label = []"
  let ?l = "clean_node_label (node_counter st) label"
  let ?r = "fst (process_node file_basename (original_node_id, label) (st, processed_nodes))"
  show exact: "?l = (if label = [] then synthetic_label (node_counter st)
           else truncate_label (synthetic_label (node_counter st)))"
    by (rule clean_empty_label [OF e])
  then have l: "?l = synthetic_label (node_counter st) \<or> ?l = truncate_label (synthetic_label (node_counter st))"
    by auto
  from synthetic_not_reserved [OF l] show ne: "?l \<noteq> []" and nr: "lower ?l \<notin> set reserved_labels" by auto
  {
    assume "node_counter st < 10 ^ 21"
    from synthetic_label_short [OF this] exact show "?l = ''Node'' @ string_of_nat (node_counter st)"
      by (simp add: synthetic_label_def)
  }
  assume fresh: "scoped_id file_basename original_node_id \<notin> set processed_nodes"
  {
    assume none: "find_similar_node st ?l = None"
    note r = process_node_minted [OF fresh ne nr none]
    show "simple_to_label ?r = dict_set (simple_to_label st) (node_counter st) ?l"
      and "label_to_simple ?r = dict_set (label_to_simple st) ?l (node_counter st)"
      and "node_counter ?r = node_counter st + 1"
      and "map_of (simple_to_label ?r) (node_counter st) = Some ?l"
      and "map_of (original_to_simple ?r) original_node_id = Some (node_counter st)"
      and "map_of (original_to_simple ?r) (scoped_id file_basename original_node_id) = Some (node_counter st)"
      unfolding r by (simp_all add: map_of_dict_set)
  }
  {
    fix existing
    assume some: "find_similar_node st ?l = Some existing"
    note r = process_node_merged [OF fresh ne nr some]
    show "simple_to_label ?r = simple_to_label st"
      and "label_to_simple ?r = label_to_simple st"
      and "node_counter ?r = node_counter st"
      and "map_of (original_to_simple ?r) original_node_id = Some existing"
      and "map_of (original_to_simple ?r) (scoped_id file_basename original_node_id) = Some existing"
      unfolding r by (simp_all add: map_of_dict_set)
    show "\<exists>existing_label. (existing_label, existing) \<in> set (label_to_simple st)
                      \<and> are_labels_similar ?l existing_label"
      by (rule find_similar_node_Some [OF some])
  }
qed

text \<open>
  C6, witness: the label \<open>()\<close> on a fresh converter, where a node is minted; the
  label \<open>[]\<close> after the nine declarations, where \<open>Node10\<close> is merged into the node
  minted as \<open>Node1\<close>; and the label \<open>node\<close>, which is skipped.
\<close>

theorem empty_synthetic_reserved_skipped_witness:
  "clean_text ''()'' = []
   \<and> node_counter init_converter < 10 ^ 21
   \<and> clean_node_label (node_counter init_converter) ''()'' = ''Node1''
   \<and> scoped_id ''a.dot'' ''Node6'' \<notin> set []
   \<and> find_similar_node init_converter (clean_node_label (node_counter init_converter) ''()'') = None
   \<and> map_of (simple_to_label (fst (process_node ''a.dot'' (''Node6'', ''()'') (init_converter, [])))) 1 = Some ''Node1''
   \<and> map_of (original_to_simple (fst (process_node ''a.dot'' (''Node6'', ''()'') (init_converter, [])))) ''Node6'' = Some 1
   \<and> node_counter (fst (process_node ''a.dot'' (''Node6'', ''()'') (init_converter, []))) = 2
   \<and> clean_text ''[]'' = []
   \<and> node_counter anonymous_state = 10
   \<and> clean_node_label (node_counter anonymous_state) ''[]'' = ''Node10''
   \<and> scoped_id ''b.dot'' ''Node3'' \<notin> set []
   \<and> find_similar_node anonymous_state (clean_node_label (node_counter anonymous_state) ''[]'') = Some 1
   \<and> simple_to_label (fst (process_node ''b.dot'' (''Node3'', ''[]'') (anonymous_state, [])))
        = simple_to_label anonymous_state
   \<and> node_counter (fst (process_node ''b.dot'' (''Node3'', ''[]'') (anonymous_state, []))) = 10
   \<and> map_of (original_to_simple (fst (process_node ''b.dot'' (''Node3'', ''[]'') (anonymous_state, [])))) ''Node3'' = Some 1
   \<and> map_of (original_to_simple (fst (process_node ''b.dot'' (''Node3'', ''[]'') (anonymous_state, []))))
        (scoped_id ''b.dot'' ''Node3'') = Some 1
   \<and> lower (clean_node_label (node_counter init_converter) ''node'') \<in> set reserved_labels
   \<and> fst (process_node ''a.dot'' (''Node5'', ''node'') (init_converter, [])) = init_converter"
proof -
  let ?a = "fst (process_node ''a.dot'' (''Node6'', ''()'') (init_converter, []))"
  let ?b = "fst (process_node ''b.dot'' (''Node3'', ''[]'') (anonymous_state, []))"
  have c: "node_counter init_converter = 1" by (simp add: init_converter_def)
  have e: "clean_text ''()'' = []" by code_simp
  have l: "clean_node_label 1 ''()'' = ''Node1''" by code_simp
  have f: "find_similar_node init_converter ''Node1'' = None" by code_simp
  have c': "node_counter anonymous_state = 10" by code_simp
  have e': "clean_text ''[]'' = []" by code_simp
  have l': "clean_node_label 10 ''[]'' = ''Node10''" by code_simp
  have f': "find_similar_node anonymous_state ''Node10'' = Some 1" by code_simp
  have r: "lower (clean_node_label 1 ''node'') \<in> set reserved_labels" by code_simp
  have small: "node_counter init_converter < 10 ^ 21" by (simp add: c)
  have cl: "clean_node_label (node_counter init_converter) ''()'' = ''Node1''" by (simp only: c l)
  have fl: "find_similar_node init_converter (clean_node_label (node_counter init_converter) ''()'') = None"
    by (simp only: c l f)
  have fresh: "scoped_id ''a.dot'' ''Node6'' \<notin> set []" by simp
  have cl': "clean_node_label (node_counter anonymous_state) ''[]'' = ''Node10''" by (simp only: c' l')
  have fl': "find_similar_node anonymous_state (clean_node_label (node_counter anonymous_state) ''[]'') = Some 1"
    by (simp only: c' l' f')
  have fresh': "scoped_id ''b.dot'' ''Node3'' \<notin> set []" by simp
  have rl: "lower (clean_node_label (node_counter init_converter) ''node'') \<in> set reserved_labels"
    by (simp only: c r)
  from empty_synthetic_reserved_skipped [of "''()''" init_converter "''a.dot''" "''Node6''" "[]"] e fresh fl
  have "map_of (simple_to_label ?a) (node_counter init_converter)
          = Some (clean_node_label (node_counter init_converter) ''()'')"
    and "map_of (original_to_simple ?a) ''Node6'' = Some (node_counter init_converter)"
    and "node_counter ?a = node_counter init_converter + 1"
    by blast+
  then have minted: "map_of (simple_to_label ?a) 1 = Some ''Node1''"
    "map_of (original_to_simple ?a) ''Node6'' = Some 1"
    "node_counter ?a = 2"
    by (simp_all only: c l one_add_one)
  from empty_synthetic_reserved_skipped [of "''[]''" anonymous_state "''b.dot''" "''Node3''" "[]"] e' fresh' fl'
  have "simple_to_label ?b = simple_to_label anonymous_state"
    and "node_counter ?b = node_counter anonymous_state"
    and "map_of (original_to_simple ?b) ''Node3'' = Some 1"
    and "map_of (original_to_simple ?b) (scoped_id ''b.dot'' ''Node3'') = Some 1"
    by blast+
  then have merged: "simple_to_label ?b = simple_to_label anonymous_state"
    "node_counter ?b = 10"
    "map_of (original_to_simple ?b) ''Node3'' = Some 1"
    "map_of (original_to_simple ?b) (scoped_id ''b.dot'' ''Node3'') = Some 1"
    by (simp_all only: c')
  from empty_synthetic_reserved_skipped [of "''node''" init_converter "''a.dot''" "''Node5''" "[]"] rl
  have skipped: "fst (process_node ''a.dot'' (''Node5'', ''node'') (init_converter, [])) = init_converter"
    by blast
  from e small cl fresh fl minted e' c' cl' fresh' fl' merged rl skipped show ?thesis
    by (intro conjI)
qed

section \<open>Ingestion: the final edge list\<close>

lemma process_node_edges: "all_edges (fst (process_node b m acc)) = all_edges (fst acc)"
  by (cases m; cases acc) (simp add: process_node_def Let_def split: option.splits prod.splits)

lemma fold_process_node_edges: "all_edges (fst (fold (process_node b) ms acc)) = all_edges (fst acc)"
  by (induction ms arbitrary: acc) (simp_all add: process_node_edges)

lemma process_edge_ok:
  "edges_ok (all_edges (fst acc)) \<Longrightarrow> edges_ok (all_edges (fst (process_edge b m acc)))"
  by (cases m; cases acc) (auto simp: process_edge_def edges_ok_def split: option.splits)

lemma fold_process_edge_ok:
  "edges_ok (all_edges (fst acc)) \<Longrightarrow> edges_ok (all_edges (fst (fold (process_edge b) ms acc)))"
  by (induction ms arbitrary: acc) (simp_all add: process_edge_ok)

lemma process_single_dot_file_ok:
  assumes "edges_ok (all_edges st)"
  shows "edges_ok (all_edges (process_single_dot_file f st))"
proof -
  let ?n = "fold (process_node (basename f)) (node_matches f) (st, [])"
  have "edges_ok (all_edges (fst (?n)))"
    using assms by (simp add: fold_process_node_edges)
  then have "edges_ok (all_edges (fst (fold (process_edge (basename f)) (edge_matches f) (fst ?n, []))))"
    using fold_process_edge_ok [of "(fst ?n, [])"] by simp
  then show ?thesis
    using assms by (auto simp: process_single_dot_file_def Let_def split: prod.splits)
qed

lemma fold_process_single_dot_file_ok:
  "edges_ok (all_edges st) \<Longrightarrow> edges_ok (all_edges (fold process_single_dot_file fs st))"
  by (induction fs arbitrary: st) (simp_all add: process_single_dot_file_ok)

lemma fold_unique_step:
  assumes "set seen = set unique" "distinct unique"
  shows "distinct (fst (fold unique_step es (unique, seen)))
       \<and> set (fst (fold unique_step es (unique, seen))) = set unique \<union> set es"
  using assms
proof (induction es arbitrary: unique seen)
  case Nil
  then show ?case by simp
next
  case (Cons e es)
  show ?case
  proof (cases "e \<in> set seen")
    case True
    with Cons.IH [OF Cons.prems] Cons.prems show ?thesis
      by (auto simp: unique_step_def)
  next
    case False
    have "set (e # seen) = set (unique @ [e])" "distinct (unique @ [e])"
      using Cons.prems False by auto
    from Cons.IH [OF this] False show ?thesis
      by (auto simp: unique_step_def)
  qed
qed

lemma final_deduplication_pass_ok:
  "edges_ok (all_edges st) \<Longrightarrow> edges_ok (all_edges (final_deduplication_pass st))"
  using fold_unique_step [of "[]" "[]" "all_edges st"]
  by (auto simp: final_deduplication_pass_def edges_ok_def Let_def)

lemma combine_all_dot_files_ok:
  "edges_ok (all_edges st) \<Longrightarrow> edges_ok (all_edges (snd (combine_all_dot_files fs st)))"
  by (simp add: combine_all_dot_files_def Let_def fold_process_single_dot_file_ok final_deduplication_pass_ok)

text \<open>
  C8. After all files are ingested, starting from a fresh converter, the edge list has
  no edge from a node to itself and holds no ordered pair twice.
\<close>

theorem final_edges_no_self_loop_no_duplicate:
  "distinct (all_edges (snd (combine_all_dot_files dot_files init_converter)))
   \<and> (\<forall>(source, target) \<in> set (all_edges (snd (combine_all_dot_files dot_files init_converter))).
         source \<noteq> target)"
proof -
  have "edges_ok (all_edges init_converter)"
    by (simp add: edges_ok_def init_converter_def)
  from combine_all_dot_files_ok [OF this, of dot_files] show ?thesis
    by (simp add: edges_ok_def)
qed

lemma scenario_edges:
  "all_edges (snd (combine_all_dot_files [scenario_doc1, scenario_doc2] init_converter)) = [(1, 2), (2, 3), (1, 5)]"
  by code_simp

text \<open>
  C8, witness: in the example files \<open>Main\<close> merges with \<open>main\<close>, so the edge between
  them is dropped, and the edge declared twice and the edges declared again in the
  second file are recorded once.
\<close>

theorem final_edges_no_self_loop_no_duplicate_witness:
  "all_edges (snd (combine_all_dot_files [scenario_doc1, scenario_doc2] init_converter)) = [(1, 2), (2, 3), (1, 5)]
   \<and> distinct (all_edges (snd (combine_all_dot_files [scenario_doc1, scenario_doc2] init_converter)))
   \<and> (1, 2) \<in> set (all_edges (snd (combine_all_dot_files [scenario_doc1, scenario_doc2] init_converter)))
   \<and> (1::nat) \<noteq> 2"
  using final_edges_no_self_loop_no_duplicate [of "[scenario_doc1, scenario_doc2]"] scenario_edges
  by simp

section \<open>Root selection\<close>

lemma those_map_Some:
  "(\<And>x. x \<in> set xs \<Longrightarrow> f x = Some (g x)) \<Longrightarrow> those (map f xs) = Some (map g xs)"
  by (induction xs) simp_all

lemma outgoing_Some: "n \<in> set (dict_keys nodes) \<Longrightarrow> \<exists>outs. outgoing nodes edges n = Some outs"
  by (simp add: outgoing_def)

lemma incoming_Some: "n \<in> set (dict_keys nodes) \<Longrightarrow> \<exists>ins. incoming nodes edges n = Some ins"
  by (simp add: incoming_def)

lemma connected_keys_subset:
  "set (dict_keys (connected_nodes nodes edges)) \<subseteq> set (dict_keys nodes)"
  by (auto simp: connected_nodes_def dict_keys_def)

lemma with_keys_Some:
  assumes "\<And>x. x \<in> set xs \<Longrightarrow> key x \<noteq> None"
  shows "with_keys key xs = Some (map (\<lambda>x. (x, the (key x))) xs)"
  unfolding with_keys_def
  by (rule those_map_Some) (use assms in auto)

lemma length_py_sorted_reverse: "length (py_sorted_reverse key xs) = length xs"
  by (simp add: py_sorted_reverse_def)

lemma set_py_sorted_reverse: "set (py_sorted_reverse key xs) = set xs"
  by (simp add: py_sorted_reverse_def)

lemma descending_py_sorted_reverse: "sorted (rev (map key (py_sorted_reverse key xs)))"
  by (simp add: py_sorted_reverse_def rev_map sorted_sort_key flip: map_map)

lemma max_roots_le: "0 < n \<Longrightarrow> max_roots n \<le> n"
  by (auto simp: max_roots_def)

text \<open>
  C4, counterexample. In a ring of 11 nodes no node is free of incoming edges; the
  code selects one root, where the ceiling of 11/10, clamped to 1..5, is 2.
\<close>

theorem eleven_nodes_one_root:
  "length (connected_nodes (ring_nodes 11) (ring_edges 11)) = 11
   \<and> filter (\<lambda>node. incoming (ring_nodes 11) (ring_edges 11) node = Some [])
        (dict_keys (connected_nodes (ring_nodes 11) (ring_edges 11))) = []
   \<and> find_roots (ring_nodes 11) (ring_edges 11) (connected_nodes (ring_nodes 11) (ring_edges 11)) = Some [0]
   \<and> min 5 (max 1 ((11 + 9) div 10)) = (2::nat)"
  by code_simp

text \<open>
  C4, as amended. When there are connected nodes and none of them is free of incoming
  edges, every connected node is scored, the candidates are sorted in descending
  order of (priority, out-degree, -in-degree), and the roots are exactly the first
  \<open>min 5 (max 1 (n div 10))\<close> of them, \<open>n\<close> the number of connected nodes: the quotient
  is rounded down.
\<close>

theorem synthetic_roots_selection:
  assumes conn: "conn = connected_nodes nodes edges"
    and nonempty: "conn \<noteq> []"
    and no_roots: "filter (\<lambda>node. incoming nodes edges node = Some []) (dict_keys conn) = []"
  shows "\<exists>entry_candidates keyed roots.
           those (map (entry_candidate nodes edges) conn) = Some entry_candidates
         \<and> map fst entry_candidates = dict_keys conn
         \<and> with_keys (candidate_key nodes edges) entry_candidates = Some keyed
         \<and> map fst keyed = entry_candidates
         \<and> sorted (rev (map snd (py_sorted_reverse snd keyed)))
         \<and> set (py_sorted_reverse snd keyed) = set keyed
         \<and> find_roots nodes edges conn = Some roots
         \<and> roots = map fst (take (max_roots (length conn)) (map fst (py_sorted_reverse snd keyed)))
         \<and> length roots = max_roots (length conn)"
proof -
  have keys: "\<And>c. c \<in> set conn \<Longrightarrow> fst c \<in> set (dict_keys nodes)"
    using connected_keys_subset [of nodes edges] conn by (auto simp: dict_keys_def)
  let ?cand = "\<lambda>c. (fst c, entry_priority (lower (snd c)) + min 5 (int (length (the (outgoing nodes edges (fst c))))))"
  let ?cands = "map ?cand conn"
  have c1: "those (map (entry_candidate nodes edges) conn) = Some ?cands"
  proof (rule those_map_Some)
    fix c assume "c \<in> set conn"
    from outgoing_Some [OF keys [OF this], of edges] show "entry_candidate nodes edges c = Some (?cand c)"
      by (auto simp: entry_candidate_def)
  qed
  have c2: "map fst ?cands = dict_keys conn"
    by (simp add: dict_keys_def comp_def)
  have ck: "\<And>x. x \<in> set ?cands \<Longrightarrow> candidate_key nodes edges x \<noteq> None"
  proof -
    fix x assume "x \<in> set ?cands"
    then have "fst x \<in> set (dict_keys nodes)" using keys by auto
    from outgoing_Some [OF this, of edges] incoming_Some [OF this, of edges] show "candidate_key nodes edges x \<noteq> None"
      by (auto simp: candidate_key_def)
  qed
  let ?keyed = "map (\<lambda>x. (x, the (candidate_key nodes edges x))) ?cands"
  have c3: "with_keys (candidate_key nodes edges) ?cands = Some ?keyed"
    by (rule with_keys_Some) (rule ck)
  have c4: "map fst ?keyed = ?cands" by (simp add: comp_def)
  let ?sorted = "map fst (py_sorted_reverse snd ?keyed)"
  have s: "sorted_by_reverse (candidate_key nodes edges) ?cands = Some ?sorted"
    by (simp only: sorted_by_reverse_def c3 option.map)
  have ne: "?cands \<noteq> []" using nonempty by simp
  have f: "find_roots nodes edges conn = Some (map fst (take (max_roots (length conn)) ?sorted))"
    unfolding find_roots_def Let_def synthetic_roots_def
    by (simp only: no_roots c1 s option.case ne) simp
  have len: "length (map fst (take (max_roots (length conn)) ?sorted)) = max_roots (length conn)"
    using max_roots_le [of "length conn"] nonempty by (simp add: length_py_sorted_reverse)
  show ?thesis
    using c1 c2 c3 c4 f len descending_py_sorted_reverse [of snd ?keyed] set_py_sorted_reverse [of snd ?keyed]
    by blast
qed

text \<open>C4, witness: a ring of three nodes.\<close>

theorem synthetic_roots_selection_witness:
  "connected_nodes (ring_nodes 3) (ring_edges 3) \<noteq> []
   \<and> filter (\<lambda>node. incoming (ring_nodes 3) (ring_edges 3) node = Some [])
        (dict_keys (connected_nodes (ring_nodes 3) (ring_edges 3))) = []
   \<and> (\<exists>roots. find_roots (ring_nodes 3) (ring_edges 3) (connected_nodes (ring_nodes 3) (ring_edges 3)) = Some roots
         \<and> length roots = 1)"
proof -
  have a: "connected_nodes (ring_nodes 3) (ring_edges 3) \<noteq> []" by code_simp
  have b: "filter (\<lambda>node. incoming (ring_nodes 3) (ring_edges 3) node = Some [])
        (dict_keys (connected_nodes (ring_nodes 3) (ring_edges 3))) = []" by code_simp
  have c: "max_roots (length (connected_nodes (ring_nodes 3) (ring_edges 3))) = 1" by code_simp
  from synthetic_roots_selection [OF refl a b] c a b show ?thesis by auto
qed

section \<open>Rebalancing of cleanup nodes\<close>

lemma dict_keys_dict_set: "set (dict_keys (dict_set d k v)) = insert k (set (dict_keys d))"
  using dom_update [of k v d] by (simp add: dict_set_def dict_keys_def dom_map_of_conv_image_fst)

lemma level_or_0_dict_set:
  "level_or_0 (dict_set levels k v) n = (if n = k then v else level_or_0 levels n)"
  by (simp add: level_or_0_def map_of_dict_set)

lemma fold_max_Max: "fold max xs (x::'a::linorder) = Max (set (x # xs))"
  by (rule Max.set_eq_fold [symmetric])

lemma py_max_Max: "py_max xs = Some m \<Longrightarrow> xs \<noteq> [] \<and> m = Max (set xs)"
  by (cases xs) (auto simp: py_max_def fold_max_Max simp del: set_simps)

text \<open>What one step of the cleanup loop returns, when the node has an entry in \<open>incoming\<close>.\<close>

lemma cleanup_step_exact:
  assumes "inc node = Some parents"
  shows "cleanup_step inc base node cur
     = Some (if level_or_0 cur node < base \<and> (\<forall>p \<in> set parents. level_or_0 cur p < base)
             then dict_set cur node base else cur)"
  using assms by (simp add: cleanup_step_def list_all_iff)

lemma cleanup_step_cases:
  assumes "cleanup_step inc base node cur = Some after"
  shows "after = cur \<or> (after = dict_set cur node base \<and> level_or_0 cur node < base
           \<and> (\<exists>parents. inc node = Some parents \<and> (\<forall>p \<in> set parents. level_or_0 cur p < base)))"
  using assms by (auto simp: cleanup_step_def list_all_iff split: if_splits option.splits)

text \<open>
  Through the loop a rank either stays as it was before the pass or has been set to
  the target; the latter only for a member of the loop that was ranked below the target
  and whose direct predecessors were all ranked below the target before the pass.
\<close>

lemma fold_cleanup_changes:
  assumes "fold_option (cleanup_step inc base) members cur = Some final"
    and "\<forall>n. map_of cur n = map_of levels n
              \<or> (n \<in> M \<and> map_of cur n = Some base \<and> level_or_0 levels n < base
                  \<and> (\<exists>parents. inc n = Some parents \<and> (\<forall>p \<in> set parents. level_or_0 levels p < base)))"
    and "set members \<subseteq> M"
  shows "\<forall>n. map_of final n = map_of levels n
              \<or> (n \<in> M \<and> map_of final n = Some base \<and> level_or_0 levels n < base
                  \<and> (\<exists>parents. inc n = Some parents \<and> (\<forall>p \<in> set parents. level_or_0 levels p < base)))"
  using assms
proof (induction members arbitrary: cur)
  case Nil
  then show ?case by simp
next
  case (Cons m members)
  from Cons.prems(1) obtain after where
    step: "cleanup_step inc base m cur = Some after"
    and rest: "fold_option (cleanup_step inc base) members after = Some final"
    by (auto split: option.splits)
  have same: "level_or_0 cur n < base \<Longrightarrow> map_of cur n = map_of levels n" for n
    using Cons.prems(2) by (auto simp: level_or_0_def)
  have inv: "\<forall>n. map_of after n = map_of levels n
              \<or> (n \<in> M \<and> map_of after n = Some base \<and> level_or_0 levels n < base
                  \<and> (\<exists>parents. inc n = Some parents \<and> (\<forall>p \<in> set parents. level_or_0 levels p < base)))"
  proof (cases "after = cur")
    case True
    then show ?thesis using Cons.prems(2) by simp
  next
    case False
    with cleanup_step_cases [OF step] obtain parents where
      n: "after = dict_set cur m base" and low: "level_or_0 cur m < base"
      and par: "inc m = Some parents" "\<forall>p \<in> set parents. level_or_0 cur p < base"
      by auto
    have "level_or_0 levels m < base"
      using same [OF low] low by (simp add: level_or_0_def)
    moreover have "\<forall>p \<in> set parents. level_or_0 levels p < base"
    proof
      fix p assume "p \<in> set parents"
      with par(2) have "level_or_0 cur p < base" by simp
      from same [OF this] this show "level_or_0 levels p < base" by (simp add: level_or_0_def)
    qed
    moreover have "m \<in> M" using Cons.prems(3) by simp
    ultimately have new: "m \<in> M \<and> map_of after m = Some base \<and> level_or_0 levels m < base
        \<and> (\<exists>parents. inc m = Some parents \<and> (\<forall>p \<in> set parents. level_or_0 levels p < base))"
      using par(1) by (simp add: n map_of_dict_set)
    show ?thesis
    proof
      fix x
      show "map_of after x = map_of levels x
              \<or> (x \<in> M \<and> map_of after x = Some base \<and> level_or_0 levels x < base
                  \<and> (\<exists>parents. inc x = Some parents \<and> (\<forall>p \<in> set parents. level_or_0 levels p < base)))"
      proof (cases "x = m")
        case True
        with new show ?thesis by simp
      next
        case False
        then have "map_of after x = map_of cur x" by (simp add: n map_of_dict_set)
        with Cons.prems(2) show ?thesis by simp
      qed
    qed
  qed
  from Cons.IH [OF rest inv] Cons.prems(3) show ?case by simp
qed

lemma fold_cleanup_monotone:
  assumes "fold_option (cleanup_step inc base) members cur = Some final"
  shows "map_of final n = map_of cur n \<or> map_of final n = Some base"
  using fold_cleanup_changes [OF assms, of cur "set members"] by blast

text \<open>
  A member of the loop that is ranked below the target, or already at it, ends at the
  target when its direct predecessors all end below the target.
\<close>

lemma fold_cleanup_pulls:
  assumes "fold_option (cleanup_step inc base) members cur = Some final"
    and "n \<in> set members" and "inc n = Some parents"
    and "level_or_0 cur n < base \<or> map_of cur n = Some base"
    and "\<forall>p \<in> set parents. level_or_0 final p < base"
  shows "map_of final n = Some base"
  using assms
proof (induction members arbitrary: cur)
  case Nil
  then show ?case by simp
next
  case (Cons m members)
  from Cons.prems(1) obtain after where
    step: "cleanup_step inc base m cur = Some after"
    and rest: "fold_option (cleanup_step inc base) members after = Some final"
    by (auto split: option.splits)
  show ?case
  proof (cases "map_of after n = Some base")
    case True
    with fold_cleanup_monotone [OF rest, of n] show ?thesis by auto
  next
    case False
    have low: "level_or_0 cur n < base"
    proof -
      have "map_of cur n \<noteq> Some base"
      proof
        assume at: "map_of cur n = Some base"
        from cleanup_step_cases [OF step] have "map_of after n = Some base"
          by (auto simp: at map_of_dict_set)
        with False show False by simp
      qed
      with Cons.prems(4) show ?thesis by simp
    qed
    have "m \<noteq> n"
    proof
      assume mn: "m = n"
      have "\<forall>p \<in> set parents. level_or_0 cur p < base"
      proof
        fix p assume "p \<in> set parents"
        with Cons.prems(5) have f: "level_or_0 final p < base" by simp
        from fold_cleanup_monotone [OF Cons.prems(1), of p] f
        have "map_of final p = map_of cur p" by (auto simp: level_or_0_def)
        with f show "level_or_0 cur p < base" by (simp add: level_or_0_def)
      qed
      with low step Cons.prems(3) have "after = dict_set cur n base"
        by (simp add: cleanup_step_exact mn)
      then have "map_of after n = Some base" by (simp add: map_of_dict_set)
      with False show False by simp
    qed
    then have mem: "n \<in> set members" using Cons.prems(2) by auto
    have "map_of after n = map_of cur n"
      using cleanup_step_cases [OF step] \<open>m \<noteq> n\<close> by (auto simp: map_of_dict_set)
    with low have "level_or_0 after n < base" by (simp add: level_or_0_def)
    then have "level_or_0 after n < base \<or> map_of after n = Some base" by simp
    from Cons.IH [OF rest mem Cons.prems(3) this Cons.prems(5)] show ?thesis .
  qed
qed

text \<open>
  C2, counterexample. In the chain the highest rank after the breadth-first pass is
  4; the cleanup node 6 is moved from rank 1 to rank 3, which is the highest rank
  minus one, not plus one. Its successor 3 stays at rank 2, so after the move the
  edge from 6 to 3 leads to a lower rank.
\<close>

theorem cleanup_target_below_max:
  "bfs_phase chain_nodes chain_edges = Some [(1, 0), (6, 1), (2, 1), (3, 2), (4, 3), (5, 4)]
   \<and> py_max (map snd [(1::nat, 0::int), (6, 1), (2, 1), (3, 2), (4, 3), (5, 4)]) = Some 4
   \<and> group_members Cleanup (connected_nodes chain_nodes chain_edges) = [6]
   \<and> cleanup_base [(1, 0), (6, 1), (2, 1), (3, 2), (4, 3), (5, 4)] (connected_nodes chain_nodes chain_edges) = Some 3
   \<and> refine_phase chain_nodes chain_edges = Some [(1, 0), (6, 3), (2, 1), (3, 2), (4, 3), (5, 4)]
   \<and> (6, 3) \<in> set chain_edges
   \<and> level_or_0 [(1, 0), (6, 3), (2, 1), (3, 2), (4, 3), (5, 4)] 3
       < level_or_0 [(1, 0), (6, 3), (2, 1), (3, 2), (4, 3), (5, 4)] 6"
  by code_simp

text \<open>
  C2, as amended. The cleanup pass computes its target as the highest rank among the
  connected nodes (an unranked node counting as 0) minus one, and visits the cleanup
  nodes in order. A visited node is moved to the target if and only if, at that moment,
  it is ranked below the target and every direct predecessor is ranked strictly below
  the target; otherwise the ranks stay as they are. For the pass as a whole: a rank
  changes only for a cleanup node, only from a rank below the target, only to the
  target, and only if every direct predecessor was ranked strictly below the target
  before the pass; and a cleanup node ranked below the target whose direct predecessors
  all end strictly below the target does end at the target.
\<close>

theorem cleanup_rebalancing:
  assumes pass: "refine_cleanup levels conn_nodes inc = Some levels'"
    and members: "group_members Cleanup conn_nodes \<noteq> []"
  shows "\<exists>base. cleanup_base levels conn_nodes = Some base
           \<and> base = Max (set (map (level_or_0 levels) (dict_keys conn_nodes))) - 1
           \<and> fold_option (cleanup_step inc base) (group_members Cleanup conn_nodes) levels = Some levels'
           \<and> (\<forall>node cur parents. inc node = Some parents \<longrightarrow>
                 cleanup_step inc base node cur
                   = Some (if level_or_0 cur node < base \<and> (\<forall>p \<in> set parents. level_or_0 cur p < base)
                           then dict_set cur node base else cur))
           \<and> (\<forall>node cur after. cleanup_step inc base node cur = Some after \<longrightarrow> after \<noteq> cur \<longrightarrow>
                 after = dict_set cur node base \<and> level_or_0 cur node < base
                 \<and> (\<exists>parents. inc node = Some parents \<and> (\<forall>p \<in> set parents. level_or_0 cur p < base)))
           \<and> (\<forall>node. map_of levels' node \<noteq> map_of levels node \<longrightarrow>
                 node \<in> set (group_members Cleanup conn_nodes)
                 \<and> map_of levels' node = Some base \<and> level_or_0 levels node < base
                 \<and> (\<exists>parents. inc node = Some parents \<and> (\<forall>p \<in> set parents. level_or_0 levels p < base)))
           \<and> (\<forall>node parents. node \<in> set (group_members Cleanup conn_nodes) \<longrightarrow> inc node = Some parents \<longrightarrow>
                 level_or_0 levels node < base \<longrightarrow> (\<forall>p \<in> set parents. level_or_0 levels' p < base) \<longrightarrow>
                 map_of levels' node = Some base)"
proof -
  from pass members obtain base where
    base: "cleanup_base levels conn_nodes = Some base"
    and fold: "fold_option (cleanup_step inc base) (group_members Cleanup conn_nodes) levels = Some levels'"
    by (auto simp: refine_cleanup_def split: option.splits)
  from base obtain m where "py_max (map (level_or_0 levels) (dict_keys conn_nodes)) = Some m" "base = m - 1"
    by (auto simp: cleanup_base_def)
  with py_max_Max have max: "base = Max (set (map (level_or_0 levels) (dict_keys conn_nodes))) - 1"
    by blast
  have exact: "\<forall>node cur parents. inc node = Some parents \<longrightarrow>
                 cleanup_step inc base node cur
                   = Some (if level_or_0 cur node < base \<and> (\<forall>p \<in> set parents. level_or_0 cur p < base)
                           then dict_set cur node base else cur)"
    using cleanup_step_exact by blast
  have steps: "\<forall>node cur after. cleanup_step inc base node cur = Some after \<longrightarrow> after \<noteq> cur \<longrightarrow>
                 after = dict_set cur node base \<and> level_or_0 cur node < base
                 \<and> (\<exists>parents. inc node = Some parents \<and> (\<forall>p \<in> set parents. level_or_0 cur p < base))"
    using cleanup_step_cases by blast
  have "\<forall>n. map_of levels' n = map_of levels n
              \<or> (n \<in> set (group_members Cleanup conn_nodes) \<and> map_of levels' n = Some base \<and> level_or_0 levels n < base
                  \<and> (\<exists>parents. inc n = Some parents \<and> (\<forall>p \<in> set parents. level_or_0 levels p < base)))"
    by (rule fold_cleanup_changes [OF fold]) simp_all
  then have changes: "\<forall>node. map_of levels' node \<noteq> map_of levels node \<longrightarrow>
                 node \<in> set (group_members Cleanup conn_nodes)
                 \<and> map_of levels' node = Some base \<and> level_or_0 levels node < base
                 \<and> (\<exists>parents. inc node = Some parents \<and> (\<forall>p \<in> set parents. level_or_0 levels p < base))"
    by blast
  have pulls: "\<forall>node parents. node \<in> set (group_members Cleanup conn_nodes) \<longrightarrow> inc node = Some parents \<longrightarrow>
                 level_or_0 levels node < base \<longrightarrow> (\<forall>p \<in> set parents. level_or_0 levels' p < base) \<longrightarrow>
                 map_of levels' node = Some base"
    using fold_cleanup_pulls [OF fold] by blast
  from base max fold exact steps changes pulls show ?thesis by blast
qed

text \<open>
  C2, witness: the cleanup pass on the chain. Node 6 is a cleanup node at rank 1, its
  only direct predecessor is node 1 at rank 0, and the target is 3.
\<close>

theorem cleanup_rebalancing_witness:
  "refine_cleanup [(1, 0), (6, 1), (2, 1), (3, 2), (4, 3), (5, 4)] (connected_nodes chain_nodes chain_edges)
       (incoming chain_nodes chain_edges) = Some [(1, 0), (6, 3), (2, 1), (3, 2), (4, 3), (5, 4)]
   \<and> group_members Cleanup (connected_nodes chain_nodes chain_edges) \<noteq> []
   \<and> cleanup_base [(1, 0), (6, 1), (2, 1), (3, 2), (4, 3), (5, 4)] (connected_nodes chain_nodes chain_edges) = Some 3
   \<and> map_of [(1::nat, 0::int), (6, 3), (2, 1), (3, 2), (4, 3), (5, 4)] 6
        \<noteq> map_of [(1::nat, 0::int), (6, 1), (2, 1), (3, 2), (4, 3), (5, 4)] 6
   \<and> 6 \<in> set (group_members Cleanup (connected_nodes chain_nodes chain_edges))
   \<and> level_or_0 [(1, 0), (6, 1), (2, 1), (3, 2), (4, 3), (5, 4)] 6 < 3
   \<and> incoming chain_nodes chain_edges 6 = Some [1]
   \<and> level_or_0 [(1, 0), (6, 1), (2, 1), (3, 2), (4, 3), (5, 4)] 1 < 3
   \<and> level_or_0 [(1, 0), (6, 3), (2, 1), (3, 2), (4, 3), (5, 4)] 1 < 3
   \<and> cleanup_step (incoming chain_nodes chain_edges) 3 6 [(1, 0), (6, 1), (2, 1), (3, 2), (4, 3), (5, 4)]
        = Some (dict_set [(1, 0), (6, 1), (2, 1), (3, 2), (4, 3), (5, 4)] 6 3)
   \<and> map_of [(1::nat, 0::int), (6, 3), (2, 1), (3, 2), (4, 3), (5, 4)] 6 = Some 3"
proof -
  let ?L0 = "[(1::nat, 0::int), (6, 1), (2, 1), (3, 2), (4, 3), (5, 4)]"
  let ?L1 = "[(1::nat, 0::int), (6, 3), (2, 1), (3, 2), (4, 3), (5, 4)]"
  let ?inc = "incoming chain_nodes chain_edges"
  let ?mem = "group_members Cleanup (connected_nodes chain_nodes chain_edges)"
  have a: "refine_cleanup ?L0 (connected_nodes chain_nodes chain_edges) ?inc = Some ?L1"
    by code_simp
  have b: "?mem \<noteq> []"
    by code_simp
  have c: "cleanup_base ?L0 (connected_nodes chain_nodes chain_edges) = Some 3"
    by code_simp
  have d: "map_of ?L1 (6::nat) \<noteq> map_of ?L0 6"
    by simp
  have f: "?inc 6 = Some [1]"
    by code_simp
  have m: "6 \<in> set ?mem"
    by code_simp
  have low: "level_or_0 ?L0 6 < 3" "level_or_0 ?L0 1 < 3" "level_or_0 ?L1 1 < 3"
    by (simp_all add: level_or_0_def)
  have par0: "\<forall>p \<in> set [1::nat]. level_or_0 ?L0 p < 3" and par1: "\<forall>p \<in> set [1::nat]. level_or_0 ?L1 p < 3"
    using low by simp_all
  from cleanup_rebalancing [OF a b] obtain base where
    base: "cleanup_base ?L0 (connected_nodes chain_nodes chain_edges) = Some base"
    and exact': "\<forall>node cur parents. ?inc node = Some parents \<longrightarrow>
                 cleanup_step ?inc base node cur
                   = Some (if level_or_0 cur node < base \<and> (\<forall>p \<in> set parents. level_or_0 cur p < base)
                           then dict_set cur node base else cur)"
    and changes': "\<forall>node. map_of ?L1 node \<noteq> map_of ?L0 node \<longrightarrow>
                 node \<in> set ?mem \<and> map_of ?L1 node = Some base \<and> level_or_0 ?L0 node < base
                 \<and> (\<exists>parents. ?inc node = Some parents \<and> (\<forall>p \<in> set parents. level_or_0 ?L0 p < base))"
    and pulls': "\<forall>node parents. node \<in> set ?mem \<longrightarrow> ?inc node = Some parents \<longrightarrow>
                 level_or_0 ?L0 node < base \<longrightarrow> (\<forall>p \<in> set parents. level_or_0 ?L1 p < base) \<longrightarrow>
                 map_of ?L1 node = Some base"
    by blast
  from base c have three: "base = 3" by simp
  note exact = exact' [unfolded three] and changes = changes' [unfolded three] and pulls = pulls' [unfolded three]
  from exact f have "cleanup_step ?inc 3 6 ?L0
      = Some (if level_or_0 ?L0 6 < 3 \<and> (\<forall>p \<in> set [1::nat]. level_or_0 ?L0 p < 3) then dict_set ?L0 6 3 else ?L0)"
    by blast
  with low(1) par0 have step: "cleanup_step ?inc 3 6 ?L0 = Some (dict_set ?L0 6 3)"
    by simp
  from changes d have moved: "6 \<in> set ?mem" "level_or_0 ?L0 6 < 3"
    "\<exists>parents. ?inc 6 = Some parents \<and> (\<forall>p \<in> set parents. level_or_0 ?L0 p < 3)"
    by blast+
  with f have "level_or_0 ?L0 1 < 3" by simp
  from pulls m f low(1) par1 have pulled: "map_of ?L1 6 = Some 3" by blast
  from a b c d moved(1,2) f \<open>level_or_0 ?L0 1 < 3\<close> low(3) step pulled show ?thesis
    by (intro conjI)
qed

section \<open>Ranks after the breadth-first pass\<close>

lemma edge_in_incoming:
  assumes "outgoing nodes edges node = Some outs" "child \<in> set outs"
  shows "\<exists>parents. incoming nodes edges child = Some parents \<and> node \<in> set parents"
  using assms by (force simp: outgoing_def incoming_def split: if_splits)

lemma outgoing_keys:
  assumes "outgoing nodes edges node = Some outs" "child \<in> set outs"
  shows "child \<in> set (dict_keys nodes)"
  using assms by (auto simp: outgoing_def split: if_splits)

lemma with_keys_set:
  "with_keys key xs = Some kxs \<Longrightarrow> map fst kxs = xs"
  unfolding with_keys_def
proof (induction xs arbitrary: kxs)
  case Nil
  then show ?case by simp
next
  case (Cons x xs)
  then show ?case by (auto split: option.splits)
qed

lemma set_sorted_by_reverse:
  "sorted_by_reverse key xs = Some ys \<Longrightarrow> set ys = set xs"
proof -
  assume "sorted_by_reverse key xs = Some ys"
  then obtain kxs where k: "with_keys key xs = Some kxs" and ys: "ys = map fst (py_sorted_reverse snd kxs)"
    by (auto simp: sorted_by_reverse_def)
  have "set ys = fst ` set kxs" by (simp add: ys py_sorted_reverse_def)
  also have "\<dots> = set (map fst kxs)" by simp
  finally show ?thesis by (simp only: with_keys_set [OF k])
qed

lemma sorted_children_parent:
  assumes "sorted_children nodes edges node = Some children" "child \<in> set children"
  shows "\<exists>parents. incoming nodes edges child = Some parents \<and> node \<in> set parents"
proof -
  from assms(1) obtain outs where o: "outgoing nodes edges node = Some outs"
    and s: "sorted_by_reverse (node_priority nodes edges) outs = Some children"
    by (auto simp: sorted_children_def split: option.splits)
  from set_sorted_by_reverse [OF s] assms(2) have "child \<in> set outs" by simp
  with o show ?thesis by (rule edge_in_incoming)
qed

lemma ranked_below_parent_mono:
  assumes "ranked_below_parent nodes edges levels n l" "node \<notin> set (dict_keys levels)"
  shows "ranked_below_parent nodes edges (dict_set levels node v) n l"
proof -
  have "\<And>p x. map_of levels p = Some x \<Longrightarrow> p \<noteq> node"
    using assms(2) by (auto simp: dict_keys_def dest: map_of_SomeD intro: rev_image_eqI)
  then show ?thesis
    using assms(1) unfolding ranked_below_parent_def map_of_dict_set by fastforce
qed

lemma bfs_levels_invariant:
  assumes "bfs_levels nodes edges conn queue visited levels = Some final"
    and "set (dict_keys levels) = visited"
    and "\<forall>(n, l) \<in> set queue. ranked_below_parent nodes edges levels n l"
    and "\<forall>n l. map_of levels n = Some l \<longrightarrow> ranked_below_parent nodes edges levels n l"
  shows "\<forall>n l. map_of final n = Some l \<longrightarrow> ranked_below_parent nodes edges final n l"
  using assms
proof (induction nodes edges conn queue visited levels rule: bfs_levels.induct)
  case (1 nodes edges conn visited levels)
  then show ?case by simp
next
  case (2 nodes edges conn node level queue visited levels)
  show ?case
  proof (cases "node \<in> visited")
    case True
    with "2.prems" have "bfs_levels nodes edges conn queue visited levels = Some final" by simp
    from "2.IH"(1) [OF True this "2.prems"(2)] "2.prems"(3,4) show ?thesis by simp
  next
    case False
    then have fresh: "node \<notin> set (dict_keys levels)" using "2.prems"(2) by simp
    then have none: "map_of levels node = None"
      by (simp add: dict_keys_def map_of_eq_None_iff)
    from "2.prems"(1) False obtain children where
      ch: "sorted_children nodes edges node = Some children"
      by (auto split: option.splits)
    let ?levels = "dict_set levels node level"
    let ?queue = "queue @ map (\<lambda>child. (child, level + 1))
                             (filter (\<lambda>child. child \<notin> insert node visited \<and> child \<in> set conn) children)"
    have run: "bfs_levels nodes edges conn ?queue (insert node visited) ?levels = Some final"
      using "2.prems"(1) False ch none by simp
    have dom: "set (dict_keys ?levels) = insert node visited"
      using "2.prems"(2) by (simp add: dict_keys_dict_set)
    have here: "ranked_below_parent nodes edges levels node level"
      using "2.prems"(3) by simp
    have q: "\<forall>(n, l) \<in> set ?queue. ranked_below_parent nodes edges ?levels n l"
    proof -
      have old: "\<forall>(n, l) \<in> set queue. ranked_below_parent nodes edges ?levels n l"
        using "2.prems"(3) ranked_below_parent_mono [OF _ fresh] by auto
      have new: "\<And>child. child \<in> set children \<Longrightarrow> ranked_below_parent nodes edges ?levels child (level + 1)"
        using sorted_children_parent [OF ch]
        unfolding ranked_below_parent_def map_of_dict_set by fastforce
      from old new show ?thesis by auto
    qed
    have l: "\<forall>n l. map_of ?levels n = Some l \<longrightarrow> ranked_below_parent nodes edges ?levels n l"
      using "2.prems"(4) here ranked_below_parent_mono [OF _ fresh]
      by (auto simp: map_of_dict_set)
    have lev: "level = (case map_of levels node of None \<Rightarrow> level | Some known \<Rightarrow> max level known)"
      by (simp add: none)
    from "2.IH"(2) [OF False ch lev run dom q l] show ?thesis .
  qed
qed

text \<open>
  The queue loop reaches the test \<open>if node in levels\<close> only for a node that is not in
  \<open>visited\<close>, and the keys of \<open>levels\<close> are the visited nodes. So the raise
  \<open>level = max(level, levels[node])\<close> is never taken: a node keeps the level of its
  first arrival, and a later arrival at a higher level is dropped by the test
  \<open>if node in visited\<close>.
\<close>

lemma bfs_levels_first_arrival:
  assumes "set (dict_keys levels) = visited" and "node \<notin> visited"
  shows "bfs_levels nodes edges conn ((node, level) # queue) visited levels =
           (case sorted_children nodes edges node of
              None \<Rightarrow> None
            | Some children \<Rightarrow>
                bfs_levels nodes edges conn
                  (queue @ map (\<lambda>child. (child, level + 1))
                             (filter (\<lambda>child. child \<notin> insert node visited \<and> child \<in> set conn) children))
                  (insert node visited)
                  (dict_set levels node level))"
    and "set (dict_keys (dict_set levels node level)) = insert node visited"
proof -
  from assms have "node \<notin> set (dict_keys levels)" by simp
  then have none: "map_of levels node = None"
    by (simp add: dict_keys_def map_of_eq_None_iff)
  with assms(2) show "bfs_levels nodes edges conn ((node, level) # queue) visited levels =
           (case sorted_children nodes edges node of
              None \<Rightarrow> None
            | Some children \<Rightarrow>
                bfs_levels nodes edges conn
                  (queue @ map (\<lambda>child. (child, level + 1))
                             (filter (\<lambda>child. child \<notin> insert node visited \<and> child \<in> set conn) children))
                  (insert node visited)
                  (dict_set levels node level))"
    by (simp split: option.splits)
  show "set (dict_keys (dict_set levels node level)) = insert node visited"
    using assms(1) by (simp add: dict_keys_dict_set)
qed

text \<open>
  What the pass does establish: a node that it ranks at a rank \<open>l\<close> other than 0 has a
  direct predecessor that it ranks at \<open>l - 1\<close>.
\<close>

lemma bfs_rank_one_above_a_predecessor:
  assumes bfs: "bfs_phase nodes edges = Some levels_bfs"
    and ranked: "map_of levels_bfs v = Some l" and above: "l \<noteq> 0"
  shows "\<exists>p parents. incoming nodes edges v = Some parents \<and> p \<in> set parents
           \<and> map_of levels_bfs p = Some (l - 1)"
proof -
  from bfs obtain roots where
    run: "bfs_levels nodes edges (dict_keys (connected_nodes nodes edges)) (map (\<lambda>root. (root, 0)) roots) {} [] = Some levels_bfs"
    by (auto simp: bfs_phase_def split: option.splits)
  have "\<forall>n l. map_of levels_bfs n = Some l \<longrightarrow> ranked_below_parent nodes edges levels_bfs n l"
    by (rule bfs_levels_invariant [OF run]) (auto simp: dict_keys_def ranked_below_parent_def)
  with ranked above show ?thesis
    unfolding ranked_below_parent_def by blast
qed

text \<open>
  C1, at the triangle. The file declares \<open>foo\<close>, \<open>bar\<close> and \<open>baz\<close>; \<open>foo\<close> calls
  \<open>bar\<close> and \<open>baz\<close>, and \<open>baz\<close> calls \<open>bar\<close>. Ingestion gives the nodes 1, 2, 3 and
  the edges \<open>(1, 2)\<close>, \<open>(1, 3)\<close>, \<open>(3, 2)\<close>. The breadth-first pass ranks node 1 at 0
  and queues its children 3 and 2 at level 1; from node 3 it queues node 2 again, at
  level 2. Node 2 is ranked at its first arrival, at 1, and the arrival at level 2 is
  dropped. No node has an error or cleanup role, so rebalancing changes nothing, and in
  the final ranks the edge from 3 to 2 joins two nodes of rank 1: the rank of its
  target is not greater than the rank of its source.
\<close>

theorem equal_ranks_along_an_edge:
  "simple_to_label (snd (combine_all_dot_files [triangle_doc] init_converter)) = triangle_nodes
   \<and> all_edges (snd (combine_all_dot_files [triangle_doc] init_converter)) = triangle_edges
   \<and> dict_keys (connected_nodes triangle_nodes triangle_edges) = [1, 2, 3]
   \<and> find_roots triangle_nodes triangle_edges (connected_nodes triangle_nodes triangle_edges) = Some [1]
   \<and> sorted_children triangle_nodes triangle_edges 1 = Some [3, 2]
   \<and> sorted_children triangle_nodes triangle_edges 3 = Some [2]
   \<and> bfs_levels triangle_nodes triangle_edges [1, 2, 3] [(2, 1), (2, 2)] {1, 3} [(1, 0), (3, 1)]
        = Some [(1, 0), (3, 1), (2, 1)]
   \<and> bfs_phase triangle_nodes triangle_edges = Some [(1, 0), (3, 1), (2, 1)]
   \<and> group_members Error (connected_nodes triangle_nodes triangle_edges) = []
   \<and> group_members Cleanup (connected_nodes triangle_nodes triangle_edges) = []
   \<and> refine_phase triangle_nodes triangle_edges = Some [(1, 0), (3, 1), (2, 1)]
   \<and> assign_levels triangle_nodes triangle_edges = Some [(1, 0), (3, 1), (2, 1)]
   \<and> (3, 2) \<in> set triangle_edges
   \<and> map_of [(1::nat, 0::int), (3, 1), (2, 1)] 3 = Some 1
   \<and> map_of [(1::nat, 0::int), (3, 1), (2, 1)] 2 = Some 1
   \<and> \<not> level_or_0 [(1, 0), (3, 1), (2, 1)] 2 > level_or_0 [(1, 0), (3, 1), (2, 1)] 3"
  by code_simp

section \<open>The level assignment returns\<close>

lemma map_of_keys: "(map_of d k \<noteq> None) = (k \<in> set (dict_keys d))"
  by (simp add: dict_keys_def map_of_eq_None_iff)

lemma node_priority_Some:
  "x \<in> set (dict_keys nodes) \<Longrightarrow> node_priority nodes edges x \<noteq> None"
  using outgoing_Some [of x nodes edges] incoming_Some [of x nodes edges] map_of_keys [of nodes x]
  by (auto simp: node_priority_def split: option.splits)

lemma sorted_by_reverse_Some:
  assumes "\<And>x. x \<in> set xs \<Longrightarrow> key x \<noteq> None"
  shows "\<exists>ys. sorted_by_reverse key xs = Some ys \<and> set ys = set xs"
proof -
  from with_keys_Some [of xs key] assms obtain kxs where "with_keys key xs = Some kxs" by blast
  then have "sorted_by_reverse key xs = Some (map fst (py_sorted_reverse snd kxs))"
    by (simp add: sorted_by_reverse_def)
  with set_sorted_by_reverse show ?thesis by blast
qed

lemma set_sorted_by:
  "sorted_by key xs = Some ys \<Longrightarrow> set ys = set xs"
proof -
  assume "sorted_by key xs = Some ys"
  then obtain kxs where k: "with_keys key xs = Some kxs" and ys: "ys = map fst (py_sorted snd kxs)"
    by (auto simp: sorted_by_def)
  have "set ys = fst ` set kxs" by (simp add: ys py_sorted_def)
  also have "\<dots> = set (map fst kxs)" by simp
  finally show ?thesis by (simp only: with_keys_set [OF k])
qed

lemma sorted_by_Some:
  assumes "\<And>x. x \<in> set xs \<Longrightarrow> key x \<noteq> None"
  shows "\<exists>ys. sorted_by key xs = Some ys \<and> set ys = set xs"
proof -
  from with_keys_Some [of xs key] assms obtain kxs where "with_keys key xs = Some kxs" by blast
  then have "sorted_by key xs = Some (map fst (py_sorted snd kxs))"
    by (simp add: sorted_by_def)
  with set_sorted_by show ?thesis by blast
qed

lemma sorted_children_Some:
  assumes "node \<in> set (dict_keys nodes)"
  shows "\<exists>children. sorted_children nodes edges node = Some children
           \<and> set children \<subseteq> set (dict_keys nodes)"
proof -
  from outgoing_Some [OF assms, of edges] obtain outs where o: "outgoing nodes edges node = Some outs" by blast
  have keys: "\<And>x. x \<in> set outs \<Longrightarrow> x \<in> set (dict_keys nodes)"
    using outgoing_keys [OF o] .
  from sorted_by_reverse_Some [of outs "node_priority nodes edges"] node_priority_Some keys
  obtain ys where "sorted_by_reverse (node_priority nodes edges) outs = Some ys" "set ys = set outs"
    by blast
  with o keys show ?thesis by (auto simp: sorted_children_def)
qed

lemma bfs_levels_total:
  assumes "fst ` set queue \<subseteq> set (dict_keys nodes)"
  shows "\<exists>final. bfs_levels nodes edges conn queue visited levels = Some final
           \<and> set (dict_keys final) \<subseteq> set (dict_keys levels) \<union> fst ` set queue \<union> set conn"
  using assms
proof (induction nodes edges conn queue visited levels rule: bfs_levels.induct)
  case (1 nodes edges conn visited levels)
  then show ?case by simp
next
  case (2 nodes edges conn node level queue visited levels)
  show ?case
  proof (cases "node \<in> visited")
    case True
    from "2.prems" have "fst ` set queue \<subseteq> set (dict_keys nodes)" by simp
    from "2.IH"(1) [OF True this] True show ?thesis by auto
  next
    case False
    from "2.prems" have "node \<in> set (dict_keys nodes)" by simp
    from sorted_children_Some [OF this, of edges] obtain children where
      ch: "sorted_children nodes edges node = Some children"
      and sub: "set children \<subseteq> set (dict_keys nodes)" by blast
    define level' where "level' = (case map_of levels node of None \<Rightarrow> level | Some known \<Rightarrow> max level known)"
    let ?queue = "queue @ map (\<lambda>child. (child, level' + 1))
                             (filter (\<lambda>child. child \<notin> insert node visited \<and> child \<in> set conn) children)"
    have q: "fst ` set ?queue \<subseteq> set (dict_keys nodes)"
      using "2.prems" sub by auto
    from "2.IH"(2) [OF False ch level'_def q] obtain final where
      f: "bfs_levels nodes edges conn ?queue (insert node visited) (dict_set levels node level') = Some final"
      and k: "set (dict_keys final) \<subseteq> set (dict_keys (dict_set levels node level')) \<union> fst ` set ?queue \<union> set conn"
      by blast
    have "bfs_levels nodes edges conn ((node, level) # queue) visited levels = Some final"
      using False ch f by (simp add: level'_def Let_def)
    moreover have "set (dict_keys final) \<subseteq> set (dict_keys levels) \<union> fst ` set ((node, level) # queue) \<union> set conn"
      using k by (auto simp: dict_keys_dict_set)
    ultimately show ?thesis by blast
  qed
qed

lemma find_roots_total:
  "\<exists>roots. find_roots nodes edges (connected_nodes nodes edges) = Some roots
     \<and> set roots \<subseteq> set (dict_keys (connected_nodes nodes edges))"
proof -
  let ?conn = "connected_nodes nodes edges"
  have keys: "\<And>c. c \<in> set ?conn \<Longrightarrow> fst c \<in> set (dict_keys nodes)"
    using connected_keys_subset [of nodes edges] by (auto simp: dict_keys_def)
  let ?cand = "\<lambda>c. (fst c, entry_priority (lower (snd c)) + min 5 (int (length (the (outgoing nodes edges (fst c))))))"
  have c1: "those (map (entry_candidate nodes edges) ?conn) = Some (map ?cand ?conn)"
  proof (rule those_map_Some)
    fix c assume "c \<in> set ?conn"
    from outgoing_Some [OF keys [OF this], of edges] show "entry_candidate nodes edges c = Some (?cand c)"
      by (auto simp: entry_candidate_def)
  qed
  have ck: "\<And>x. x \<in> set (map ?cand ?conn) \<Longrightarrow> candidate_key nodes edges x \<noteq> None"
  proof -
    fix x assume "x \<in> set (map ?cand ?conn)"
    then have "fst x \<in> set (dict_keys nodes)" using keys by auto
    from outgoing_Some [OF this, of edges] incoming_Some [OF this, of edges]
    show "candidate_key nodes edges x \<noteq> None"
      by (auto simp: candidate_key_def)
  qed
  from sorted_by_reverse_Some [of "map ?cand ?conn" "candidate_key nodes edges"] ck
  obtain sc where sc: "sorted_by_reverse (candidate_key nodes edges) (map ?cand ?conn) = Some sc"
    "set sc = set (map ?cand ?conn)" by blast
  have ok: "\<And>x. x \<in> set (dict_keys ?conn) \<Longrightarrow> map_option length (outgoing nodes edges x) \<noteq> None"
    using outgoing_Some connected_keys_subset by fastforce
  from sorted_by_reverse_Some [of "dict_keys ?conn" "\<lambda>x. map_option length (outgoing nodes edges x)"] ok
  obtain so where so: "sorted_by_reverse (\<lambda>x. map_option length (outgoing nodes edges x)) (dict_keys ?conn) = Some so"
    "set so = set (dict_keys ?conn)" by blast
  have "\<exists>roots. synthetic_roots nodes edges ?conn = Some roots \<and> set roots \<subseteq> set (dict_keys ?conn)"
  proof (cases "?conn = []")
    case True
    then show ?thesis using so c1 by (auto simp: synthetic_roots_def dest: in_set_takeD)
  next
    case False
    have "set (map fst (take (max_roots (length (map ?cand ?conn))) sc)) \<subseteq> set (dict_keys ?conn)"
    proof
      fix r assume "r \<in> set (map fst (take (max_roots (length (map ?cand ?conn))) sc))"
      then obtain x where "x \<in> set sc" "r = fst x" by (auto dest: in_set_takeD)
      with sc(2) show "r \<in> set (dict_keys ?conn)" by (force simp: dict_keys_def)
    qed
    with False c1 sc(1) show ?thesis by (simp add: synthetic_roots_def)
  qed
  then show ?thesis by (auto simp: find_roots_def Let_def)
qed

lemma bfs_phase_total:
  "\<exists>levels. bfs_phase nodes edges = Some levels
     \<and> set (dict_keys levels) \<subseteq> set (dict_keys (connected_nodes nodes edges))"
proof -
  from find_roots_total [of nodes edges] obtain roots where
    r: "find_roots nodes edges (connected_nodes nodes edges) = Some roots"
    and sub: "set roots \<subseteq> set (dict_keys (connected_nodes nodes edges))" by blast
  have "fst ` set (map (\<lambda>root. (root, 0::int)) roots) \<subseteq> set (dict_keys nodes)"
    using sub connected_keys_subset [of nodes edges] by auto
  from bfs_levels_total [OF this, of edges "dict_keys (connected_nodes nodes edges)" "{}" "[]"]
  obtain final where f: "bfs_levels nodes edges (dict_keys (connected_nodes nodes edges))
      (map (\<lambda>root. (root, 0::int)) roots) {} [] = Some final"
    and k: "set (dict_keys final) \<subseteq> set (dict_keys ([] :: (nat \<times> int) list))
           \<union> fst ` set (map (\<lambda>root. (root, 0::int)) roots)
           \<union> set (dict_keys (connected_nodes nodes edges))" by blast
  have "fst ` set (map (\<lambda>root. (root, 0::int)) roots) = set roots" by force
  with k sub have "set (dict_keys final) \<subseteq> set (dict_keys (connected_nodes nodes edges))"
    by (auto simp: dict_keys_def)
  with r f show ?thesis by (simp add: bfs_phase_def)
qed

lemma fold_option_invariant:
  assumes "P s" "\<And>x s. x \<in> set xs \<Longrightarrow> P s \<Longrightarrow> \<exists>s'. f x s = Some s' \<and> P s'"
  shows "\<exists>s'. fold_option f xs s = Some s' \<and> P s'"
  using assms
proof (induction xs arbitrary: s)
  case Nil
  then show ?case by simp
next
  case (Cons x xs)
  from Cons.prems(2) [of x s] Cons.prems(1) obtain s1 where s1: "f x s = Some s1" "P s1" by auto
  from Cons.IH [OF s1(2)] Cons.prems(2) obtain s' where "fold_option f xs s1 = Some s'" "P s'"
    by auto
  with s1 show ?case by simp
qed

lemma group_members_subset: "set (group_members g conn_nodes) \<subseteq> set (dict_keys conn_nodes)"
  by (auto simp: group_members_def dict_keys_def)

lemma error_step_total:
  assumes "inc node \<noteq> None"
  shows "\<exists>after. error_step inc target node levels = Some after
           \<and> set (dict_keys after) \<subseteq> insert node (set (dict_keys levels))"
  using assms by (auto simp: error_step_def dict_keys_dict_set)

lemma cleanup_step_total:
  assumes "inc node \<noteq> None"
  shows "\<exists>after. cleanup_step inc base node levels = Some after
           \<and> set (dict_keys after) \<subseteq> insert node (set (dict_keys levels))"
  using assms by (auto simp: cleanup_step_def dict_keys_dict_set)

lemma refine_errors_total:
  assumes inc: "\<And>n. n \<in> set (dict_keys conn_nodes) \<Longrightarrow> inc n \<noteq> None"
    and sub: "set (dict_keys levels) \<subseteq> K" "set (dict_keys conn_nodes) \<subseteq> K"
  shows "\<exists>after. refine_errors levels conn_nodes inc = Some after \<and> set (dict_keys after) \<subseteq> K"
proof -
  have "\<exists>after. fold_option (error_step inc target) (group_members Error conn_nodes) levels = Some after
          \<and> set (dict_keys after) \<subseteq> K" for target
  proof (rule fold_option_invariant)
    show "set (dict_keys levels) \<subseteq> K" by (rule sub)
  next
    fix x and s :: "(nat \<times> int) list" assume x: "x \<in> set (group_members Error conn_nodes)" and s: "set (dict_keys s) \<subseteq> K"
    from x group_members_subset have k: "x \<in> set (dict_keys conn_nodes)" by blast
    from error_step_total [of inc x target s] inc [OF k] k sub(2) s
    show "\<exists>s'. error_step inc target x s = Some s' \<and> set (dict_keys s') \<subseteq> K" by blast
  qed
  then show ?thesis using sub(1) by (auto simp: refine_errors_def Let_def)
qed

lemma py_max_Some: "xs \<noteq> [] \<Longrightarrow> \<exists>m. py_max xs = Some m"
  by (cases xs) (auto simp: py_max_def)

lemma refine_cleanup_total:
  assumes inc: "\<And>n. n \<in> set (dict_keys conn_nodes) \<Longrightarrow> inc n \<noteq> None"
    and sub: "set (dict_keys levels) \<subseteq> K" "set (dict_keys conn_nodes) \<subseteq> K"
  shows "\<exists>after. refine_cleanup levels conn_nodes inc = Some after \<and> set (dict_keys after) \<subseteq> K"
proof (cases "group_members Cleanup conn_nodes = []")
  case True
  then show ?thesis using sub(1) by (simp add: refine_cleanup_def)
next
  case False
  then have "dict_keys conn_nodes \<noteq> []"
    using group_members_subset [of Cleanup conn_nodes] by auto
  then have "map (level_or_0 levels) (dict_keys conn_nodes) \<noteq> []" by simp
  from py_max_Some [OF this] obtain base where b: "cleanup_base levels conn_nodes = Some base"
    by (auto simp: cleanup_base_def)
  have "\<exists>after. fold_option (cleanup_step inc base) (group_members Cleanup conn_nodes) levels = Some after
          \<and> set (dict_keys after) \<subseteq> K"
  proof (rule fold_option_invariant)
    show "set (dict_keys levels) \<subseteq> K" by (rule sub)
  next
    fix x and s :: "(nat \<times> int) list" assume x: "x \<in> set (group_members Cleanup conn_nodes)" and s: "set (dict_keys s) \<subseteq> K"
    from x group_members_subset have k: "x \<in> set (dict_keys conn_nodes)" by blast
    from cleanup_step_total [of inc x base s] inc [OF k] k sub(2) s
    show "\<exists>s'. cleanup_step inc base x s = Some s' \<and> set (dict_keys s') \<subseteq> K" by blast
  qed
  with False b show ?thesis by (simp add: refine_cleanup_def)
qed

lemma incoming_connected:
  "n \<in> set (dict_keys (connected_nodes nodes edges)) \<Longrightarrow> incoming nodes edges n \<noteq> None"
  using connected_keys_subset [of nodes edges] incoming_Some [of n nodes edges] by auto

lemma refine_phase_total:
  "\<exists>levels. refine_phase nodes edges = Some levels
     \<and> set (dict_keys levels) \<subseteq> set (dict_keys (connected_nodes nodes edges))"
proof -
  let ?K = "set (dict_keys (connected_nodes nodes edges))"
  from bfs_phase_total [of nodes edges] obtain l0 where
    l0: "bfs_phase nodes edges = Some l0" "set (dict_keys l0) \<subseteq> ?K" by blast
  from refine_errors_total [of "connected_nodes nodes edges" "incoming nodes edges" l0 ?K]
    incoming_connected l0(2)
  obtain l1 where l1: "refine_errors l0 (connected_nodes nodes edges) (incoming nodes edges) = Some l1"
    "set (dict_keys l1) \<subseteq> ?K" by blast
  from refine_cleanup_total [of "connected_nodes nodes edges" "incoming nodes edges" l1 ?K]
    incoming_connected l1(2)
  obtain l2 where "refine_cleanup l1 (connected_nodes nodes edges) (incoming nodes edges) = Some l2"
    "set (dict_keys l2) \<subseteq> ?K" by blast
  with l0 l1 show ?thesis
    by (simp add: refine_phase_def refine_levels_by_function_type_def)
qed

lemma assign_remaining_total:
  assumes "inc node \<noteq> None"
  shows "\<exists>after. assign_remaining inc node levels = Some after
           \<and> set (dict_keys after) = insert node (set (dict_keys levels))"
proof -
  from assms obtain parents where p: "inc node = Some parents" by auto
  show ?thesis
  proof (cases "node \<in> set (dict_keys levels)")
    case True
    then show ?thesis by (auto simp: assign_remaining_def)
  next
    case False
    show ?thesis
    proof (cases "parents = []")
      case True
      with False p show ?thesis by (simp add: assign_remaining_def dict_keys_dict_set)
    next
      case np: False
      then have "map (level_or_0 levels) parents \<noteq> []" by simp
      from py_max_Some [OF this] obtain m where "py_max (map (level_or_0 levels) parents) = Some m" by blast
      with False p np show ?thesis by (simp add: assign_remaining_def dict_keys_dict_set)
    qed
  qed
qed

lemma fold_assign_remaining_total:
  assumes "\<And>n. n \<in> set ks \<Longrightarrow> inc n \<noteq> None"
  shows "\<exists>final. fold_option (assign_remaining inc) ks levels = Some final
           \<and> set (dict_keys final) = set (dict_keys levels) \<union> set ks"
  using assms
proof (induction ks arbitrary: levels)
  case Nil
  then show ?case by simp
next
  case (Cons k ks)
  from assign_remaining_total [of inc k levels] Cons.prems obtain after where
    a: "assign_remaining inc k levels = Some after" "set (dict_keys after) = insert k (set (dict_keys levels))"
    by auto
  from Cons.IH [of after] Cons.prems obtain final where
    "fold_option (assign_remaining inc) ks after = Some final"
    "set (dict_keys final) = set (dict_keys after) \<union> set ks" by auto
  with a show ?case by auto
qed

lemma assign_levels_total:
  "\<exists>levels. assign_levels nodes edges = Some levels
     \<and> set (dict_keys levels) = set (dict_keys (connected_nodes nodes edges))"
proof -
  from refine_phase_total [of nodes edges] obtain l where
    l: "refine_phase nodes edges = Some l" "set (dict_keys l) \<subseteq> set (dict_keys (connected_nodes nodes edges))"
    by blast
  from fold_assign_remaining_total [of "dict_keys (connected_nodes nodes edges)" "incoming nodes edges" l]
    incoming_connected
  obtain final where "fold_option (assign_remaining (incoming nodes edges))
      (dict_keys (connected_nodes nodes edges)) l = Some final"
    "set (dict_keys final) = set (dict_keys l) \<union> set (dict_keys (connected_nodes nodes edges))"
    by blast
  with l show ?thesis by (auto simp: assign_levels_def)
qed

section \<open>Splitting crowded levels keeps every node\<close>

lemma half_not_int: "(l::rat) \<in> \<int> \<Longrightarrow> l + 1 / 2 \<notin> \<int>"
proof
  assume l: "l \<in> \<int>" and h: "l + 1 / 2 \<in> \<int>"
  from Ints_diff [OF h l] have "(1 / 2 :: rat) \<in> \<int>" by simp
  from Ints_nonzero_abs_less1 [OF this] show False by simp
qed

lemma group_nodes_dict_set_new:
  assumes "map_of g k = None"
  shows "group_nodes (dict_set g k ms) = group_nodes g \<union> set ms"
proof (intro set_eqI iffI)
  fix n assume "n \<in> group_nodes (dict_set g k ms)"
  then obtain level members where m: "((map_of g)(k \<mapsto> ms)) level = Some members" "n \<in> set members"
    by (auto simp: group_nodes_def map_of_dict_set)
  then show "n \<in> group_nodes g \<union> set ms"
    by (cases "level = k") (auto simp: group_nodes_def)
next
  fix n assume "n \<in> group_nodes g \<union> set ms"
  then show "n \<in> group_nodes (dict_set g k ms)"
  proof
    assume "n \<in> group_nodes g"
    then obtain level members where m: "map_of g level = Some members" "n \<in> set members"
      by (auto simp: group_nodes_def)
    with assms have "level \<noteq> k" by auto
    with m have "map_of (dict_set g k ms) level = Some members" by (simp add: map_of_dict_set)
    with m(2) show ?thesis unfolding group_nodes_def by blast
  next
    assume "n \<in> set ms"
    moreover have "map_of (dict_set g k ms) k = Some ms" by (simp add: map_of_dict_set)
    ultimately show ?thesis unfolding group_nodes_def by blast
  qed
qed

lemma group_nodes_dict_set_grow:
  assumes "map_of g k = Some old" "set old \<subseteq> set ms"
  shows "group_nodes (dict_set g k ms) = group_nodes g \<union> set ms"
proof (intro set_eqI iffI)
  fix n assume "n \<in> group_nodes (dict_set g k ms)"
  then obtain level members where m: "((map_of g)(k \<mapsto> ms)) level = Some members" "n \<in> set members"
    by (auto simp: group_nodes_def map_of_dict_set)
  then show "n \<in> group_nodes g \<union> set ms"
    by (cases "level = k") (auto simp: group_nodes_def)
next
  fix n assume "n \<in> group_nodes g \<union> set ms"
  then show "n \<in> group_nodes (dict_set g k ms)"
  proof
    assume "n \<in> group_nodes g"
    then obtain level members where m: "map_of g level = Some members" "n \<in> set members"
      by (auto simp: group_nodes_def)
    show ?thesis
    proof (cases "level = k")
      case True
      with m assms have "n \<in> set ms" by auto
      moreover have "map_of (dict_set g k ms) k = Some ms" by (simp add: map_of_dict_set)
      ultimately show ?thesis unfolding group_nodes_def by blast
    next
      case False
      with m have "map_of (dict_set g k ms) level = Some members" by (simp add: map_of_dict_set)
      with m(2) show ?thesis unfolding group_nodes_def by blast
    qed
  next
    assume "n \<in> set ms"
    moreover have "map_of (dict_set g k ms) k = Some ms" by (simp add: map_of_dict_set)
    ultimately show ?thesis unfolding group_nodes_def by blast
  qed
qed

lemma group_nodes_add:
  "group_nodes (add_to_group entry level_groups) = insert (fst entry) (group_nodes level_groups)"
proof (cases "map_of level_groups (snd entry)")
  case None
  with group_nodes_dict_set_new [OF None, of "[fst entry]"] show ?thesis
    by (simp add: add_to_group_def)
next
  case (Some members)
  have "set members \<subseteq> group_nodes level_groups" using Some by (auto simp: group_nodes_def)
  with group_nodes_dict_set_grow [OF Some, of "members @ [fst entry]"] Some show ?thesis
    by (auto simp: add_to_group_def)
qed

lemma keys_add:
  "set (dict_keys (add_to_group entry level_groups)) = insert (snd entry) (set (dict_keys level_groups))"
  by (auto simp: add_to_group_def dict_keys_dict_set split: option.splits)

lemma fold_add_to_group:
  "group_nodes (fold add_to_group levels acc) = group_nodes acc \<union> fst ` set levels
   \<and> set (dict_keys (fold add_to_group levels acc)) = set (dict_keys acc) \<union> snd ` set levels"
  by (induction levels arbitrary: acc) (auto simp: group_nodes_add keys_add)

lemma level_groups_of_nodes: "group_nodes (level_groups_of levels) = set (dict_keys levels)"
  using fold_add_to_group [of levels "[]"]
  by (simp add: level_groups_of_def group_nodes_def dict_keys_def)

lemma level_groups_of_keys: "set (dict_keys (level_groups_of levels)) = snd ` set levels"
  using fold_add_to_group [of levels "[]"]
  by (simp add: level_groups_of_def dict_keys_def)

lemma rational_levels_keys: "dict_keys (rational_levels levels) = dict_keys levels"
  by (induction levels) (auto simp: rational_levels_def dict_keys_def)

lemma rational_levels_ints: "snd ` set (rational_levels levels) \<subseteq> \<int>"
  by (auto simp: rational_levels_def)

lemma is_important_Some:
  "n \<in> set (dict_keys nodes) \<Longrightarrow> is_important nodes edges n \<noteq> None"
  using outgoing_Some [of n nodes edges] map_of_keys [of nodes n]
  by (auto simp: is_important_def split: option.splits)

lemma fold_dict_set_keys:
  "set (dict_keys (fold (\<lambda>node levels. dict_set levels node v) ns levels)) = set (dict_keys levels) \<union> set ns"
  by (induction ns arbitrary: levels) (auto simp: dict_keys_dict_set)

lemma split_level_step:
  assumes key: "map_of groups level = Some ns"
    and free: "map_of groups (level + 1 / 2) = None"
    and known: "group_nodes groups \<subseteq> set (dict_keys nodes)"
  shows "\<exists>groups' levels'. split_level nodes edges level (groups, levels) = Some (groups', levels')
           \<and> group_nodes groups' = group_nodes groups
           \<and> set (dict_keys levels') \<subseteq> set (dict_keys levels) \<union> group_nodes groups
           \<and> set (dict_keys groups') \<subseteq> insert (level + 1 / 2) (set (dict_keys groups))
           \<and> set (dict_keys groups) \<subseteq> set (dict_keys groups')"
proof (cases "length ns > max_nodes_per_level")
  case False
  with key show ?thesis by (auto simp: split_level_def)
next
  case True
  have ns: "set ns \<subseteq> group_nodes groups" using key by (auto simp: group_nodes_def)
  then have "\<And>x. x \<in> set ns \<Longrightarrow> is_important nodes edges x \<noteq> None"
    using known is_important_Some by blast
  from with_keys_Some [of ns "is_important nodes edges", OF this]
  obtain flagged where fl: "with_keys (is_important nodes edges) ns = Some flagged" by blast
  from with_keys_set [OF fl] have mf: "map fst flagged = ns" .
  define important where "important = map fst (filter snd flagged)"
  define regular where "regular = filter (\<lambda>n. n \<notin> set important) ns"
  have imp: "set important \<subseteq> set ns" using mf by (force simp: important_def)
  have un: "set important \<union> set regular = set ns" using imp by (auto simp: regular_def)
  have lk: "level \<in> set (dict_keys groups)" using key map_of_keys [of groups level] by simp
  show ?thesis
  proof (cases "regular = []")
    case r: True
    then have eq: "set important = set ns" using un by simp
    have res: "split_level nodes edges level (groups, levels) = Some (dict_set groups level important, levels)"
      using key True fl r by (simp add: split_level_def Let_def important_def regular_def)
    have "set ns \<subseteq> group_nodes groups" by (rule ns)
    with group_nodes_dict_set_grow [OF key, of important] eq
    have "group_nodes (dict_set groups level important) = group_nodes groups" by auto
    with res lk show ?thesis by (auto simp: dict_keys_dict_set)
  next
    case r: False
    let ?g = "dict_set (dict_set groups level important) (level + 1 / 2) regular"
    let ?l = "fold (\<lambda>node levels. dict_set levels node (level + 1 / 2)) regular levels"
    have res: "split_level nodes edges level (groups, levels) = Some (?g, ?l)"
      using key True fl r by (simp add: split_level_def Let_def important_def regular_def)
    have ne: "level + 1 / 2 \<noteq> level" by simp
    have "group_nodes ?g = group_nodes groups"
    proof
      show "group_nodes ?g \<subseteq> group_nodes groups"
        using ns un key by (auto simp: group_nodes_def map_of_dict_set split: if_splits)
    next
      show "group_nodes groups \<subseteq> group_nodes ?g"
      proof
        fix n assume "n \<in> group_nodes groups"
        then obtain k ms where k: "map_of groups k = Some ms" "n \<in> set ms" by (auto simp: group_nodes_def)
        show "n \<in> group_nodes ?g"
        proof (cases "k = level")
          case True
          with k key un have "n \<in> set important \<or> n \<in> set regular" by auto
          then show ?thesis
          proof
            assume "n \<in> set important"
            moreover have "map_of ?g level = Some important" using ne by (simp add: map_of_dict_set)
            ultimately show ?thesis unfolding group_nodes_def by blast
          next
            assume "n \<in> set regular"
            moreover have "map_of ?g (level + 1 / 2) = Some regular" by (simp add: map_of_dict_set)
            ultimately show ?thesis unfolding group_nodes_def by blast
          qed
        next
          case False
          moreover have "k \<noteq> level + 1 / 2" using k free by auto
          ultimately have "map_of ?g k = Some ms" using k by (simp add: map_of_dict_set)
          with k show ?thesis unfolding group_nodes_def by blast
        qed
      qed
    qed
    moreover have "set (dict_keys ?l) \<subseteq> set (dict_keys levels) \<union> group_nodes groups"
      using un ns by (auto simp: fold_dict_set_keys)
    moreover have "set (dict_keys ?g) \<subseteq> insert (level + 1 / 2) (set (dict_keys groups))"
      using lk by (auto simp: dict_keys_dict_set)
    moreover have "set (dict_keys groups) \<subseteq> set (dict_keys ?g)"
      by (auto simp: dict_keys_dict_set)
    ultimately show ?thesis using res by blast
  qed
qed

lemma fold_split_level:
  assumes "distinct ls" "set ls \<subseteq> \<int>" "set ls \<subseteq> set (dict_keys groups)"
    and "\<forall>k \<in> set (dict_keys groups). k \<in> \<int> \<or> k - 1 / 2 \<notin> set ls"
    and "group_nodes groups \<subseteq> set (dict_keys nodes)"
  shows "\<exists>groups' levels'. fold_option (split_level nodes edges) ls (groups, levels) = Some (groups', levels')
           \<and> group_nodes groups' = group_nodes groups
           \<and> set (dict_keys levels') \<subseteq> set (dict_keys levels) \<union> group_nodes groups"
  using assms
proof (induction ls arbitrary: groups levels)
  case Nil
  then show ?case by simp
next
  case (Cons l ls)
  from Cons.prems(3) obtain ns where key: "map_of groups l = Some ns"
    using map_of_keys [of groups l] by auto
  have lint: "l \<in> \<int>" using Cons.prems(2) by simp
  have free: "map_of groups (l + 1 / 2) = None"
  proof (rule ccontr)
    assume "map_of groups (l + 1 / 2) \<noteq> None"
    then have "l + 1 / 2 \<in> set (dict_keys groups)" using map_of_keys [of groups "l + 1 / 2"] by blast
    with Cons.prems(4) have "l + 1 / 2 \<in> \<int> \<or> l + 1 / 2 - 1 / 2 \<notin> set (l # ls)" by blast
    with half_not_int [OF lint] show False by simp
  qed
  from split_level_step [OF key free Cons.prems(5), of edges levels] obtain g1 l1 where
    step: "split_level nodes edges l (groups, levels) = Some (g1, l1)"
    and gn: "group_nodes g1 = group_nodes groups"
    and lv: "set (dict_keys l1) \<subseteq> set (dict_keys levels) \<union> group_nodes groups"
    and up: "set (dict_keys g1) \<subseteq> insert (l + 1 / 2) (set (dict_keys groups))"
    and lo: "set (dict_keys groups) \<subseteq> set (dict_keys g1)" by blast
  have d: "distinct ls" and i: "set ls \<subseteq> \<int>" and s: "set ls \<subseteq> set (dict_keys g1)"
    using Cons.prems(1,2,3) lo by auto
  have inv: "\<forall>k \<in> set (dict_keys g1). k \<in> \<int> \<or> k - 1 / 2 \<notin> set ls"
  proof
    fix k assume "k \<in> set (dict_keys g1)"
    with up have "k = l + 1 / 2 \<or> k \<in> set (dict_keys groups)" by auto
    then show "k \<in> \<int> \<or> k - 1 / 2 \<notin> set ls"
    proof
      assume "k = l + 1 / 2"
      then show ?thesis using Cons.prems(1) by simp
    next
      assume "k \<in> set (dict_keys groups)"
      with Cons.prems(4) show ?thesis by auto
    qed
  qed
  have kn: "group_nodes g1 \<subseteq> set (dict_keys nodes)" using gn Cons.prems(5) by simp
  from Cons.IH [OF d i s inv kn, of l1] obtain g2 l2 where
    "fold_option (split_level nodes edges) ls (g1, l1) = Some (g2, l2)"
    "group_nodes g2 = group_nodes g1" "set (dict_keys l2) \<subseteq> set (dict_keys l1) \<union> group_nodes g1"
    by blast
  with step gn lv show ?case by auto
qed

lemma dict_keys_distinct_fold_add: "distinct (dict_keys acc) \<Longrightarrow> distinct (dict_keys (fold add_to_group levels acc))"
proof (induction levels arbitrary: acc)
  case Nil
  then show ?case by simp
next
  case (Cons e levels)
  have "distinct (dict_keys (add_to_group e acc))"
    using Cons.prems by (auto simp: add_to_group_def dict_set_def dict_keys_def distinct_update split: option.splits)
  from Cons.IH [OF this] show ?case by simp
qed

lemma split_crowded_total:
  "\<exists>level_groups levels. split_crowded nodes edges = Some (level_groups, levels)
     \<and> group_nodes level_groups = set (dict_keys (connected_nodes nodes edges))
     \<and> set (dict_keys levels) \<subseteq> set (dict_keys (connected_nodes nodes edges))"
proof -
  from assign_levels_total [of nodes edges] obtain l where
    l: "assign_levels nodes edges = Some l" "set (dict_keys l) = set (dict_keys (connected_nodes nodes edges))"
    by blast
  let ?r = "rational_levels l"
  let ?g = "level_groups_of ?r"
  let ?ls = "py_sorted id (dict_keys ?g)"
  have gn: "group_nodes ?g = set (dict_keys (connected_nodes nodes edges))"
    by (simp add: level_groups_of_nodes rational_levels_keys l(2))
  have "distinct (dict_keys ?g)"
    unfolding level_groups_of_def by (rule dict_keys_distinct_fold_add) (simp add: dict_keys_def)
  then have d: "distinct ?ls" by (simp add: py_sorted_def)
  have s: "set ?ls = set (dict_keys ?g)" by (simp add: py_sorted_def)
  have ints: "set (dict_keys ?g) \<subseteq> \<int>"
    using rational_levels_ints [of l] by (simp add: level_groups_of_keys)
  have inv: "\<forall>k \<in> set (dict_keys ?g). k \<in> \<int> \<or> k - 1 / 2 \<notin> set ?ls"
    using ints by auto
  have kn: "group_nodes ?g \<subseteq> set (dict_keys nodes)"
    using gn connected_keys_subset by simp
  from fold_split_level [OF d _ _ inv kn, of edges ?r] s ints obtain g' l' where
    "fold_option (split_level nodes edges) ?ls (?g, ?r) = Some (g', l')"
    "group_nodes g' = group_nodes ?g" "set (dict_keys l') \<subseteq> set (dict_keys ?r) \<union> group_nodes ?g"
    by auto
  with l gn show ?thesis by (auto simp: split_crowded_def rational_levels_keys)
qed

section \<open>Every node gets a position and a size\<close>

lemma fold_enumerate_keys:
  "set (dict_keys (fold (\<lambda>(i, node) ps. dict_set ps node (f i)) (enumerate k xs) ps))
     = set (dict_keys ps) \<union> set xs"
  by (induction xs arbitrary: k ps) (auto simp: dict_keys_dict_set)

lemma fold_enumerate_keep:
  "n \<notin> set xs \<Longrightarrow>
     map_of (fold (\<lambda>(i, node) ps. dict_set ps node (f i)) (enumerate k xs) ps) n = map_of ps n"
  by (induction xs arbitrary: k ps) (auto simp: map_of_dict_set)

lemma fold_enumerate_values:
  assumes "\<And>m v. map_of ps m = Some v \<Longrightarrow> P v"
    and "\<And>i. k \<le> i \<Longrightarrow> i < k + length xs \<Longrightarrow> P (f i)"
    and "map_of (fold (\<lambda>(i, node) ps. dict_set ps node (f i)) (enumerate k xs) ps) n = Some v"
  shows "P v"
  using assms
proof (induction xs arbitrary: k ps)
  case Nil
  then show ?case by simp
next
  case (Cons x xs)
  have a: "\<And>m v. map_of (dict_set ps x (f k)) m = Some v \<Longrightarrow> P v"
    using Cons.prems(1) Cons.prems(2) [of k] by (auto simp: map_of_dict_set split: if_splits)
  have b: "\<And>i. Suc k \<le> i \<Longrightarrow> i < Suc k + length xs \<Longrightarrow> P (f i)"
    using Cons.prems(2) by simp
  from Cons.prems(3) have "map_of (fold (\<lambda>(i, node) ps. dict_set ps node (f i)) (enumerate (Suc k) xs)
      (dict_set ps x (f k))) n = Some v" by simp
  from Cons.IH [OF a b this] show ?case .
qed

lemma level_sort_key_Some:
  "x \<in> set (dict_keys nodes) \<Longrightarrow> level_sort_key nodes edges x \<noteq> None"
  using outgoing_Some [of x nodes edges] incoming_Some [of x nodes edges] map_of_keys [of nodes x]
  by (auto simp: level_sort_key_def split: option.splits)

lemma place_level_total:
  assumes key: "map_of groups level = Some ns" and known: "set ns \<subseteq> set (dict_keys nodes)"
  shows "\<exists>ps'. place_level nodes edges groups level_spacing base_node_spacing main_graph_width level ps = Some ps'
           \<and> set (dict_keys ps') = set (dict_keys ps) \<union> set ns"
proof -
  from sorted_by_Some [of ns "level_sort_key nodes edges"] level_sort_key_Some known
  obtain sorted_ns where s: "sorted_by (level_sort_key nodes edges) ns = Some sorted_ns" "set sorted_ns = set ns"
    by blast
  show ?thesis
    using key s by (simp add: place_level_def Let_def fold_enumerate_keys)
qed

lemma place_levels_total:
  assumes "set ls \<subseteq> set (dict_keys groups)" "group_nodes groups \<subseteq> set (dict_keys nodes)"
  shows "\<exists>ps'. fold_option (place_level nodes edges groups level_spacing base_node_spacing main_graph_width) ls ps
             = Some ps'
           \<and> set (dict_keys ps') = set (dict_keys ps)
                \<union> {n. \<exists>l \<in> set ls. \<exists>ns. map_of groups l = Some ns \<and> n \<in> set ns}"
  using assms
proof (induction ls arbitrary: ps)
  case Nil
  then show ?case by simp
next
  case (Cons l ls)
  from Cons.prems(1) obtain ns where key: "map_of groups l = Some ns"
    using map_of_keys [of groups l] by auto
  then have "set ns \<subseteq> group_nodes groups" by (auto simp: group_nodes_def)
  with Cons.prems(2) have "set ns \<subseteq> set (dict_keys nodes)" by blast
  from place_level_total [OF key this, of edges level_spacing base_node_spacing main_graph_width ps]
  obtain p1 where p1: "place_level nodes edges groups level_spacing base_node_spacing main_graph_width l ps = Some p1"
    "set (dict_keys p1) = set (dict_keys ps) \<union> set ns" by blast
  from Cons.IH [of p1] Cons.prems obtain p2 where
    p2: "fold_option (place_level nodes edges groups level_spacing base_node_spacing main_graph_width) ls p1 = Some p2"
    "set (dict_keys p2) = set (dict_keys p1) \<union> {n. \<exists>l \<in> set ls. \<exists>ns. map_of groups l = Some ns \<and> n \<in> set ns}"
    by auto
  have "set (dict_keys p2) = set (dict_keys ps)
                \<union> {n. \<exists>k \<in> set (l # ls). \<exists>ns. map_of groups k = Some ns \<and> n \<in> set ns}"
    using p1(2) p2(2) key by auto
  with p1(1) p2(1) show ?case by simp
qed

lemma all_keys_group_nodes:
  "{n. \<exists>l \<in> set (dict_keys groups). \<exists>ns. map_of groups l = Some ns \<and> n \<in> set ns} = group_nodes groups"
  using map_of_keys [of groups] by (auto simp: group_nodes_def)

lemma isolated_subset: "set (isolated_nodes nodes edges) \<subseteq> set (dict_keys nodes)"
  by (auto simp: isolated_nodes_def)

lemma keys_split:
  "set (dict_keys nodes) = set (isolated_nodes nodes edges) \<union> set (dict_keys (connected_nodes nodes edges))"
  by (force simp: isolated_nodes_def connected_nodes_def dict_keys_def)

lemma isolated_not_connected:
  "n \<in> set (isolated_nodes nodes edges) \<Longrightarrow> n \<notin> set (dict_keys (connected_nodes nodes edges))"
  by (auto simp: isolated_nodes_def connected_nodes_def dict_keys_def)

lemma get_isolated_node_priority_Some:
  "x \<in> set (dict_keys nodes) \<Longrightarrow> get_isolated_node_priority nodes x \<noteq> None"
  using map_of_keys [of nodes x] by (auto simp: get_isolated_node_priority_def)

lemma place_isolated_total:
  assumes "set isolated \<subseteq> set (dict_keys nodes)"
  shows "\<exists>ps'. place_isolated nodes isolated main_graph_width max_node_width max_node_height ps = Some ps'
           \<and> set (dict_keys ps') = set (dict_keys ps) \<union> set isolated"
proof -
  from sorted_by_Some [of isolated "get_isolated_node_priority nodes"] get_isolated_node_priority_Some assms
  obtain si where s: "sorted_by (get_isolated_node_priority nodes) isolated = Some si" "set si = set isolated"
    by blast
  then show ?thesis
    by (auto simp: place_isolated_def Let_def fold_enumerate_keys)
qed

lemma node_sizes_of_keys: "set (dict_keys (node_sizes_of nodes isolated)) = set (dict_keys nodes)"
proof -
  have "set (dict_keys (fold (\<lambda>entry node_sizes. dict_set node_sizes (fst entry) (node_size_of isolated entry)) nodes acc))
          = set (dict_keys acc) \<union> fst ` set nodes" for acc
    by (induction nodes arbitrary: acc) (auto simp: dict_keys_dict_set)
  from this [of "[]"] show ?thesis by (simp add: node_sizes_of_def dict_keys_def)
qed

lemma layout_total:
  "\<exists>level_groups levels ranked positions.
       split_crowded nodes edges = Some (level_groups, levels)
     \<and> fold_option (place_level nodes edges level_groups
            (level_spacing_of (length nodes) (max_node_height_of nodes (isolated_nodes nodes edges)))
            (base_node_spacing_of (length nodes) (max_node_width_of nodes (isolated_nodes nodes edges)))
            (layout_main_graph_width nodes edges level_groups))
          (py_sorted id (dict_keys level_groups)) [] = Some ranked
     \<and> set (dict_keys ranked) = set (dict_keys (connected_nodes nodes edges))
     \<and> place_isolated nodes (isolated_nodes nodes edges) (layout_main_graph_width nodes edges level_groups)
          (max_node_width_of nodes (isolated_nodes nodes edges))
          (max_node_height_of nodes (isolated_nodes nodes edges)) ranked = Some positions
     \<and> set (dict_keys positions) = set (dict_keys nodes)
     \<and> calculate_hierarchical_layout nodes edges
         = Some (positions, node_sizes_of nodes (isolated_nodes nodes edges),
                 max_node_width_of nodes (isolated_nodes nodes edges),
                 max_node_height_of nodes (isolated_nodes nodes edges),
                 length (isolated_nodes nodes edges),
                 layout_main_graph_width nodes edges level_groups
                   + isolated_area_width_of (length (isolated_nodes nodes edges)))"
proof -
  from split_crowded_total [of nodes edges] obtain g l where
    sc: "split_crowded nodes edges = Some (g, l)"
    and gn: "group_nodes g = set (dict_keys (connected_nodes nodes edges))" by blast
  have kn: "group_nodes g \<subseteq> set (dict_keys nodes)" using gn connected_keys_subset by simp
  let ?ls = "level_spacing_of (length nodes) (max_node_height_of nodes (isolated_nodes nodes edges))"
  let ?bs = "base_node_spacing_of (length nodes) (max_node_width_of nodes (isolated_nodes nodes edges))"
  let ?W = "layout_main_graph_width nodes edges g"
  have "set (py_sorted id (dict_keys g)) \<subseteq> set (dict_keys g)" by (simp add: py_sorted_def)
  from place_levels_total [OF this kn, of edges ?ls ?bs ?W "[]"] obtain ranked where
    r: "fold_option (place_level nodes edges g ?ls ?bs ?W) (py_sorted id (dict_keys g)) [] = Some ranked"
    and rk: "set (dict_keys ranked) = set (dict_keys ([] :: (nat \<times> int \<times> rat) list))
        \<union> {n. \<exists>l \<in> set (py_sorted id (dict_keys g)). \<exists>ns. map_of g l = Some ns \<and> n \<in> set ns}"
    by blast
  have "set (py_sorted id (dict_keys g)) = set (dict_keys g)" by (simp add: py_sorted_def)
  with rk all_keys_group_nodes [of g] gn
  have rk': "set (dict_keys ranked) = set (dict_keys (connected_nodes nodes edges))"
    by (simp add: dict_keys_def)
  from place_isolated_total [OF isolated_subset, of nodes edges ?W
      "max_node_width_of nodes (isolated_nodes nodes edges)"
      "max_node_height_of nodes (isolated_nodes nodes edges)" ranked]
  obtain positions where
    p: "place_isolated nodes (isolated_nodes nodes edges) ?W
          (max_node_width_of nodes (isolated_nodes nodes edges))
          (max_node_height_of nodes (isolated_nodes nodes edges)) ranked = Some positions"
    and pk: "set (dict_keys positions) = set (dict_keys ranked) \<union> set (isolated_nodes nodes edges)"
    by blast
  have pk': "set (dict_keys positions) = set (dict_keys nodes)"
    using pk rk' keys_split [of nodes edges] by auto
  have "calculate_hierarchical_layout nodes edges
         = Some (positions, node_sizes_of nodes (isolated_nodes nodes edges),
                 max_node_width_of nodes (isolated_nodes nodes edges),
                 max_node_height_of nodes (isolated_nodes nodes edges),
                 length (isolated_nodes nodes edges),
                 ?W + isolated_area_width_of (length (isolated_nodes nodes edges)))"
    using sc r p by (simp add: calculate_hierarchical_layout_def Let_def)
  with sc r rk' p pk' show ?thesis by blast
qed

text \<open>
  C10. For every node list and edge list the layout returns, without a failed lookup
  on the way; the keys of the positions and of the sizes are the keys of the node
  map, and the emitter's loop over the nodes finds a position and a size for each.
\<close>

theorem layout_positions_total:
  "\<exists>positions node_sizes max_node_width max_node_height isolated_count canvas_width cells.
       calculate_hierarchical_layout nodes edges
         = Some (positions, node_sizes, max_node_width, max_node_height, isolated_count, canvas_width)
     \<and> set (dict_keys positions) = set (dict_keys nodes)
     \<and> set (dict_keys node_sizes) = set (dict_keys nodes)
     \<and> node_cells nodes edges = Some cells
     \<and> map fst cells = dict_keys nodes"
proof -
  from layout_total [of nodes edges] obtain positions g where
    l: "calculate_hierarchical_layout nodes edges
         = Some (positions, node_sizes_of nodes (isolated_nodes nodes edges),
                 max_node_width_of nodes (isolated_nodes nodes edges),
                 max_node_height_of nodes (isolated_nodes nodes edges),
                 length (isolated_nodes nodes edges),
                 layout_main_graph_width nodes edges g
                   + isolated_area_width_of (length (isolated_nodes nodes edges)))"
    and pk: "set (dict_keys positions) = set (dict_keys nodes)" by blast
  let ?sizes = "node_sizes_of nodes (isolated_nodes nodes edges)"
  have sk: "set (dict_keys ?sizes) = set (dict_keys nodes)" by (rule node_sizes_of_keys)
  let ?cell = "\<lambda>k. (k, the (map_of positions k), the (map_of ?sizes k))"
  have "those (map (node_geometry positions ?sizes) (dict_keys nodes)) = Some (map ?cell (dict_keys nodes))"
  proof (rule those_map_Some)
    fix k assume "k \<in> set (dict_keys nodes)"
    with pk sk map_of_keys [of positions k] map_of_keys [of ?sizes k]
    show "node_geometry positions ?sizes k = Some (?cell k)"
      by (auto simp: node_geometry_def)
  qed
  then have c: "node_cells nodes edges = Some (map ?cell (dict_keys nodes))"
    using l by (simp add: node_cells_def)
  have "map fst (map ?cell (dict_keys nodes)) = dict_keys nodes" by (simp add: comp_def)
  with l pk sk c show ?thesis by blast
qed

section \<open>Isolated nodes are placed apart\<close>

text \<open>
  The width needed by a level stays at least 440 below the main graph width, for
  every number of nodes on the level, so the last node of a level starts at least 220
  left of it.
\<close>

lemma spacing_width:
  fixes k c W :: int
  assumes "1 \<le> k" "280 \<le> c" "(k - 1) * c + 440 \<le> W"
  shows "(k - 1) * max c (W div (k + 1)) + 440 \<le> W"
proof (cases "W div (k + 1) \<le> c")
  case True
  then show ?thesis using assms(3) by (simp add: max_def)
next
  case False
  let ?q = "W div (k + 1)"
  have "?q * (k + 1) + W mod (k + 1) = W" by (rule div_mult_mod_eq)
  moreover have "0 \<le> W mod (k + 1)" using assms(1) by (intro pos_mod_sign) auto
  ultimately have "?q * (k + 1) \<le> W" by linarith
  moreover have "(k - 1) * ?q = ?q * (k + 1) - 2 * ?q" by (simp add: algebra_simps)
  ultimately have "(k - 1) * ?q + 440 \<le> W" using False assms(2) by linarith
  then show ?thesis using False by (simp add: max_def)
qed

lemma level_width:
  fixes k base W P :: int
  assumes "1 \<le> k" "280 \<le> base" "k * base \<le> P" "P + 600 \<le> W"
  shows "(k - 1) * node_spacing_of k base W + 440 \<le> W"
proof -
  have kb: "k * 280 \<le> k * base" using assms(1,2) by (intro mult_left_mono) auto
  have e1: "(k - 1) * (base + 80) = k * base + 80 * k - base - 80" by (simp add: algebra_simps)
  have e2: "(k - 1) * (base + 60) = k * base + 60 * k - base - 60" by (simp add: algebra_simps)
  consider "k \<le> 4" | "4 < k" "k \<le> 8" | "8 < k" "k \<le> 12" | "12 < k" by linarith
  then show ?thesis
  proof cases
    case 1
    have "(k - 1) * (base + 80) + 440 \<le> W" unfolding e1 using 1 assms by linarith
    with 1 show ?thesis by (simp add: node_spacing_of_def)
  next
    case 2
    have "(k - 1) * (base + 60) + 440 \<le> W" unfolding e2 using 2 assms by linarith
    from spacing_width [OF assms(1) _ this] assms(2) 2 show ?thesis
      by (simp add: node_spacing_of_def)
  next
    case 3
    have "(k - 1) * 320 = 320 * k - 320" by (simp add: algebra_simps)
    moreover have "280 * k + 600 \<le> W" using assms kb by linarith
    ultimately have "(k - 1) * 320 + 440 \<le> W" using 3 by linarith
    from spacing_width [OF assms(1) _ this] 3 show ?thesis
      by (simp add: node_spacing_of_def)
  next
    case 4
    have "(k - 1) * 280 = 280 * k - 280" by (simp add: algebra_simps)
    moreover have "280 * k + 600 \<le> W" using assms kb by linarith
    ultimately have "(k - 1) * 280 + 440 \<le> W" by linarith
    from spacing_width [OF assms(1) _ this] 4 show ?thesis
      by (simp add: node_spacing_of_def)
  qed
qed

lemma ranked_x_bound:
  fixes k K base W i :: int
  assumes "1 \<le> k" "k \<le> K" "280 \<le> base" "K * base + 600 \<le> W" "i < k"
  shows "start_x_of k (node_spacing_of k base W) W + i * node_spacing_of k base W + 220 \<le> W"
proof -
  let ?sp = "node_spacing_of k base W"
  have kb: "k * base \<le> K * base" using assms(2,3) by (intro mult_right_mono) auto
  have width: "(k - 1) * ?sp + 440 \<le> W"
    by (rule level_width [OF assms(1,3) kb assms(4)])
  have pos: "0 \<le> ?sp" using assms(3) by (auto simp: node_spacing_of_def)
  have "i * ?sp \<le> (k - 1) * ?sp" using assms(5) pos by (intro mult_right_mono) auto
  with width show ?thesis by (simp add: start_x_of_def)
qed

lemma fold_max_ge_init: "(init::int) \<le> fold (\<lambda>x m. max m (f x)) xs init"
proof (induction xs arbitrary: init)
  case Nil
  then show ?case by simp
next
  case (Cons x xs)
  have "init \<le> max init (f x)" by simp
  also have "\<dots> \<le> fold (\<lambda>x m. max m (f x)) xs (max init (f x))" by (rule Cons.IH)
  finally show ?case by simp
qed

lemma fold_max_ge_member: "x \<in> set xs \<Longrightarrow> f x \<le> fold (\<lambda>x m. max m (f x)) xs (init::int)"
proof (induction xs arbitrary: init)
  case Nil
  then show ?case by simp
next
  case (Cons y ys)
  show ?case
  proof (cases "x = y")
    case True
    have "f x \<le> max init (f y)" using True by simp
    also have "\<dots> \<le> fold (\<lambda>x m. max m (f x)) ys (max init (f y))" by (rule fold_max_ge_init)
    finally show ?thesis by simp
  next
    case False
    with Cons.prems have "x \<in> set ys" by simp
    from Cons.IH [OF this] show ?thesis by simp
  qed
qed

lemma max_nodes_in_level_ge:
  assumes "map_of level_groups level = Some ns"
  shows "int (length ns) \<le> max_nodes_in_level_of level_groups"
proof -
  from assms have m: "(level, ns) \<in> set level_groups" by (rule map_of_SomeD)
  then obtain g gs where c: "level_groups = g # gs" by (cases level_groups) auto
  show ?thesis
  proof (cases "(level, ns) = g")
    case True
    with fold_max_ge_init [of "int (length (snd g))" "\<lambda>x. int (length (snd x))" gs] c
    show ?thesis by (auto simp: max_nodes_in_level_of_def)
  next
    case False
    with m c have "(level, ns) \<in> set gs" by auto
    from fold_max_ge_member [OF this, of "\<lambda>x. int (length (snd x))" "int (length (snd g))"] c
    show ?thesis by (simp add: max_nodes_in_level_of_def)
  qed
qed

lemma base_node_spacing_ge: "280 \<le> base_node_spacing_of total_nodes max_node_width"
  by (auto simp: base_node_spacing_of_def)

lemma main_graph_width_ge:
  "max_nodes_in_level * base_node_spacing + 600 \<le> main_graph_width_of total_nodes max_nodes_in_level base_node_spacing"
  by (auto simp: main_graph_width_of_def)

lemma max_node_width_nonneg: "0 \<le> max_node_width_of nodes isolated"
  unfolding max_node_width_of_def by (rule fold_max_ge_init)

lemma length_sorted_by: "sorted_by key xs = Some ys \<Longrightarrow> length ys = length xs"
proof -
  assume "sorted_by key xs = Some ys"
  then obtain kxs where k: "with_keys key xs = Some kxs" and ys: "ys = map fst (py_sorted snd kxs)"
    by (auto simp: sorted_by_def)
  have "length ys = length (map fst kxs)" by (simp add: ys py_sorted_def)
  then show ?thesis by (simp only: with_keys_set [OF k])
qed

lemma fold_option_preserves:
  assumes "fold_option f xs s = Some s'" "P s"
    and "\<And>x a b. x \<in> set xs \<Longrightarrow> P a \<Longrightarrow> f x a = Some b \<Longrightarrow> P b"
  shows "P s'"
  using assms
proof (induction xs arbitrary: s)
  case Nil
  then show ?case by simp
next
  case (Cons x xs)
  from Cons.prems(1) obtain s1 where s1: "f x s = Some s1" "fold_option f xs s1 = Some s'"
    by (auto split: option.splits)
  have "P s1" using Cons.prems(3) [of x s s1] Cons.prems(2) s1(1) by simp
  show ?case
  proof (rule Cons.IH [OF s1(2) \<open>P s1\<close>])
    fix y a b assume "y \<in> set xs" "P a" "f y a = Some b"
    with Cons.prems(3) [of y a b] show "P b" by simp
  qed
qed

lemma place_level_left_of_width:
  assumes placed: "place_level nodes edges level_groups level_spacing base_node_spacing main_graph_width level ps = Some ps'"
    and before: "\<And>m v. map_of ps m = Some v \<Longrightarrow> fst v + 220 \<le> main_graph_width"
    and base: "280 \<le> base_node_spacing"
    and width: "max_nodes_in_level_of level_groups * base_node_spacing + 600 \<le> main_graph_width"
    and here: "map_of ps' m = Some v"
  shows "fst v + 220 \<le> main_graph_width"
proof -
  from placed obtain ns sorted_ns where
    key: "map_of level_groups level = Some ns"
    and srt: "sorted_by (level_sort_key nodes edges) ns = Some sorted_ns"
    and ps': "ps' = fold (\<lambda>(i, node) positions.
                dict_set positions node
                  (start_x_of (int (length ns)) (node_spacing_of (int (length ns)) base_node_spacing main_graph_width) main_graph_width
                     + int i * node_spacing_of (int (length ns)) base_node_spacing main_graph_width,
                   200 + level * of_int level_spacing))
              (enumerate 0 sorted_ns) ps"
    by (auto simp: place_level_def Let_def split: option.splits)
  have len: "length sorted_ns = length ns" by (rule length_sorted_by [OF srt])
  have k: "int (length ns) \<le> max_nodes_in_level_of level_groups" by (rule max_nodes_in_level_ge [OF key])
  let ?f = "\<lambda>i. (start_x_of (int (length ns)) (node_spacing_of (int (length ns)) base_node_spacing main_graph_width) main_graph_width
                     + int i * node_spacing_of (int (length ns)) base_node_spacing main_graph_width,
                   200 + level * of_int level_spacing)"
  have new: "\<And>i. 0 \<le> i \<Longrightarrow> i < 0 + length sorted_ns \<Longrightarrow> fst (?f i) + 220 \<le> main_graph_width"
  proof -
    fix i :: nat assume "i < 0 + length sorted_ns"
    then have i: "int i < int (length ns)" using len by simp
    then have "1 \<le> int (length ns)" by linarith
    from ranked_x_bound [OF this k base width i] show "fst (?f i) + 220 \<le> main_graph_width" by simp
  qed
  from here have "map_of (fold (\<lambda>(i, node) ps. dict_set ps node (?f i)) (enumerate 0 sorted_ns) ps) m = Some v"
    by (simp only: ps')
  from fold_enumerate_values [of ps "\<lambda>v. fst v + 220 \<le> main_graph_width" 0 sorted_ns ?f m v, OF before new this]
  show ?thesis .
qed

lemma fold_enumerate_assigned:
  assumes "n \<in> set xs"
  shows "\<exists>i. k \<le> i \<and> i < k + length xs
           \<and> map_of (fold (\<lambda>(i, node) ps. dict_set ps node (f i)) (enumerate k xs) ps) n = Some (f i)"
  using assms
proof (induction xs arbitrary: k ps)
  case Nil
  then show ?case by simp
next
  case (Cons x xs)
  show ?case
  proof (cases "n \<in> set xs")
    case True
    from Cons.IH [OF True, of "Suc k" "dict_set ps x (f k)"] obtain i where
      "Suc k \<le> i" "i < Suc k + length xs"
      "map_of (fold (\<lambda>(i, node) ps. dict_set ps node (f i)) (enumerate (Suc k) xs) (dict_set ps x (f k))) n = Some (f i)"
      by blast
    then have "k \<le> i \<and> i < k + length (x # xs)
        \<and> map_of (fold (\<lambda>(i, node) ps. dict_set ps node (f i)) (enumerate k (x # xs)) ps) n = Some (f i)"
      by simp
    then show ?thesis by blast
  next
    case False
    with Cons.prems have nx: "n = x" by simp
    have "map_of (fold (\<lambda>(i, node) ps. dict_set ps node (f i)) (enumerate (Suc k) xs) (dict_set ps x (f k))) n
            = map_of (dict_set ps x (f k)) n"
      by (rule fold_enumerate_keep [OF False])
    then have "map_of (fold (\<lambda>(i, node) ps. dict_set ps node (f i)) (enumerate k (x # xs)) ps) n = Some (f k)"
      using nx by (simp add: map_of_dict_set)
    then show ?thesis by auto
  qed
qed

lemma isolated_gap_ge: "150 \<le> isolated_gap_of n"
  by (simp add: isolated_gap_of_def)

lemma place_isolated_right_of_width:
  assumes placed: "place_isolated nodes isolated main_graph_width max_node_width max_node_height ps = Some ps'"
    and member: "n \<in> set isolated" and width: "0 \<le> max_node_width"
  shows "\<exists>x y. map_of ps' n = Some (x, y) \<and> main_graph_width + 150 \<le> x"
proof -
  from member have ne: "isolated \<noteq> []" by auto
  let ?f = "\<lambda>i. (main_graph_width + isolated_gap_of (length isolated)
                    + int (i mod isolated_cols_of (length isolated)) * (max_node_width + 60),
                  200 + (of_int (int (i div isolated_cols_of (length isolated)) * (max_node_height + 50)) :: rat))"
  from placed ne obtain si where
    srt: "sorted_by (get_isolated_node_priority nodes) isolated = Some si"
    and ps': "ps' = fold (\<lambda>(i, node) positions. dict_set positions node (?f i)) (enumerate 0 si) ps"
    by (auto simp: place_isolated_def Let_def split: option.splits)
  from set_sorted_by [OF srt] member have "n \<in> set si" by simp
  from fold_enumerate_assigned [OF this, of 0 ?f ps] obtain i where
    "map_of (fold (\<lambda>(i, node) ps. dict_set ps node (?f i)) (enumerate 0 si) ps) n = Some (?f i)"
    by blast
  then have v: "map_of ps' n = Some (?f i)" by (simp only: ps')
  have "0 \<le> int (i mod isolated_cols_of (length isolated)) * (max_node_width + 60)"
    using width by simp
  with isolated_gap_ge [of "length isolated"] have "main_graph_width + 150 \<le> fst (?f i)" by simp
  with v show ?thesis by auto
qed

lemma place_isolated_keeps:
  assumes placed: "place_isolated nodes isolated main_graph_width max_node_width max_node_height ps = Some ps'"
    and other: "m \<notin> set isolated"
  shows "map_of ps' m = map_of ps m"
proof (cases "isolated = []")
  case True
  with placed show ?thesis by (simp add: place_isolated_def)
next
  case False
  let ?f = "\<lambda>i. (main_graph_width + isolated_gap_of (length isolated)
                    + int (i mod isolated_cols_of (length isolated)) * (max_node_width + 60),
                  200 + (of_int (int (i div isolated_cols_of (length isolated)) * (max_node_height + 50)) :: rat))"
  from placed False obtain si where
    srt: "sorted_by (get_isolated_node_priority nodes) isolated = Some si"
    and ps': "ps' = fold (\<lambda>(i, node) positions. dict_set positions node (?f i)) (enumerate 0 si) ps"
    by (auto simp: place_isolated_def Let_def split: option.splits)
  from set_sorted_by [OF srt] other have "m \<notin> set si" by simp
  from fold_enumerate_keep [OF this, of ?f 0 ps] show ?thesis by (simp only: ps')
qed

lemma calculate_node_size_width: "fst (calculate_node_size label font_size is_isolated) \<le> 300"
  by (auto simp: calculate_node_size_def Let_def floor_le_iff)

lemma node_sizes_of_width:
  assumes "map_of (node_sizes_of nodes isolated) m = Some v"
  shows "fst v \<le> 300"
proof -
  have "\<forall>m v. map_of (fold (\<lambda>entry node_sizes. dict_set node_sizes (fst entry) (node_size_of isolated entry)) nodes acc) m
            = Some v \<longrightarrow> fst v \<le> 300"
    if "\<forall>m v. map_of acc m = Some v \<longrightarrow> fst v \<le> 300" for acc
    using that
  proof (induction nodes arbitrary: acc)
    case Nil
    then show ?case by simp
  next
    case (Cons e nodes)
    have "\<forall>m v. map_of (dict_set acc (fst e) (node_size_of isolated e)) m = Some v \<longrightarrow> fst v \<le> 300"
    proof (intro allI impI)
      fix m v
      assume mv: "map_of (dict_set acc (fst e) (node_size_of isolated e)) m = Some v"
      show "fst v \<le> 300"
      proof (cases "m = fst e")
        case True
        with mv have "v = node_size_of isolated e" by (simp add: map_of_dict_set)
        then show ?thesis unfolding node_size_of_def by (simp only: calculate_node_size_width)
      next
        case False
        with mv have "map_of acc m = Some v" by (simp add: map_of_dict_set)
        with Cons.prems show ?thesis by blast
      qed
    qed
    from Cons.IH [OF this] show ?case by simp
  qed
  from this [of "[]"] have "\<forall>m v. map_of (node_sizes_of nodes isolated) m = Some v \<longrightarrow> fst v \<le> 300"
    unfolding node_sizes_of_def by simp
  with assms show ?thesis by blast
qed

lemma no_incident_edge_isolated:
  assumes "n \<in> set (dict_keys nodes)" "\<And>e. e \<in> set edges \<Longrightarrow> fst e \<noteq> n \<and> snd e \<noteq> n"
  shows "n \<in> set (isolated_nodes nodes edges)"
proof -
  have "filter (\<lambda>(source, target). source \<in> set (dict_keys nodes) \<and> target \<in> set (dict_keys nodes) \<and> target = n) edges = []"
    using assms(2) by (fastforce simp: filter_empty_conv)
  moreover have "filter (\<lambda>(source, target). source \<in> set (dict_keys nodes) \<and> target \<in> set (dict_keys nodes) \<and> source = n) edges = []"
    using assms(2) by (fastforce simp: filter_empty_conv)
  ultimately show ?thesis
    using assms(1) by (simp add: isolated_nodes_def is_isolated_node_def incoming_def outgoing_def)
qed

text \<open>
  C9. A node with no incident edge receives no rank, neither when the levels are
  assigned nor when crowded levels are split. The layout places it at an \<open>x\<close> of at
  least the main graph width plus 150, in the side region. Every ranked node is placed
  at an \<open>x\<close> below the main graph width, and its box ends left of the box of the
  isolated node.
\<close>

theorem isolated_nodes_apart:
  assumes key: "n \<in> set (dict_keys nodes)"
    and no_edge: "\<forall>e \<in> set edges. fst e \<noteq> n \<and> snd e \<noteq> n"
  shows "\<exists>ranks level_groups levels positions node_sizes max_node_width max_node_height isolated_count
            canvas_width x y.
       assign_levels nodes edges = Some ranks
     \<and> map_of ranks n = None
     \<and> split_crowded nodes edges = Some (level_groups, levels)
     \<and> map_of levels n = None
     \<and> calculate_hierarchical_layout nodes edges
         = Some (positions, node_sizes, max_node_width, max_node_height, isolated_count, canvas_width)
     \<and> map_of positions n = Some (x, y)
     \<and> layout_main_graph_width nodes edges level_groups + 150 \<le> x
     \<and> (\<forall>m x' y' w h. map_of levels m \<noteq> None \<longrightarrow> map_of positions m = Some (x', y') \<longrightarrow>
            map_of node_sizes m = Some (w, h) \<longrightarrow>
            x' < layout_main_graph_width nodes edges level_groups \<and> x' + w < x)"
proof -
  let ?iso = "isolated_nodes nodes edges"
  let ?conn = "set (dict_keys (connected_nodes nodes edges))"
  have iso: "n \<in> set ?iso"
    using key no_edge by (intro no_incident_edge_isolated) auto
  then have nc: "n \<notin> ?conn" by (rule isolated_not_connected)
  from assign_levels_total [of nodes edges] obtain ranks where
    ranks: "assign_levels nodes edges = Some ranks" "set (dict_keys ranks) = ?conn" by blast
  have r0: "map_of ranks n = None"
    using map_of_keys [of ranks n] ranks(2) nc by auto
  from layout_total [of nodes edges] obtain g l ranked positions where
    sc: "split_crowded nodes edges = Some (g, l)"
    and rk: "fold_option (place_level nodes edges g
            (level_spacing_of (length nodes) (max_node_height_of nodes ?iso))
            (base_node_spacing_of (length nodes) (max_node_width_of nodes ?iso))
            (layout_main_graph_width nodes edges g))
          (py_sorted id (dict_keys g)) [] = Some ranked"
    and pi: "place_isolated nodes ?iso (layout_main_graph_width nodes edges g)
          (max_node_width_of nodes ?iso) (max_node_height_of nodes ?iso) ranked = Some positions"
    and lay: "calculate_hierarchical_layout nodes edges
         = Some (positions, node_sizes_of nodes ?iso, max_node_width_of nodes ?iso,
                 max_node_height_of nodes ?iso, length ?iso,
                 layout_main_graph_width nodes edges g + isolated_area_width_of (length ?iso))"
    by blast
  from split_crowded_total [of nodes edges] sc have lk: "set (dict_keys l) \<subseteq> ?conn" by auto
  have l0: "map_of l n = None"
    using map_of_keys [of l n] lk nc by auto
  let ?W = "layout_main_graph_width nodes edges g"
  from place_isolated_right_of_width [OF pi iso max_node_width_nonneg] obtain x y where
    xy: "map_of positions n = Some (x, y)" "?W + 150 \<le> x" by blast
  have left: "\<And>m v. map_of ranked m = Some v \<Longrightarrow> fst v + 220 \<le> ?W"
  proof -
    fix m v assume mv: "map_of ranked m = Some v"
    have "\<forall>m v. map_of ranked m = Some v \<longrightarrow> fst v + 220 \<le> ?W"
    proof (rule fold_option_preserves [OF rk, where P = "\<lambda>ps. \<forall>m v. map_of ps m = Some v \<longrightarrow> fst v + 220 \<le> ?W"])
      show "\<forall>m v. map_of ([] :: (nat \<times> int \<times> rat) list) m = Some v \<longrightarrow> fst v + 220 \<le> ?W" by simp
    next
      fix level a b
      assume a: "\<forall>m v. map_of a m = Some v \<longrightarrow> fst v + 220 \<le> ?W"
        and pl: "place_level nodes edges g
            (level_spacing_of (length nodes) (max_node_height_of nodes ?iso))
            (base_node_spacing_of (length nodes) (max_node_width_of nodes ?iso)) ?W level a = Some b"
      have w: "max_nodes_in_level_of g * base_node_spacing_of (length nodes) (max_node_width_of nodes ?iso) + 600 \<le> ?W"
        unfolding layout_main_graph_width_def by (rule main_graph_width_ge)
      show "\<forall>m v. map_of b m = Some v \<longrightarrow> fst v + 220 \<le> ?W"
        using place_level_left_of_width [OF pl _ base_node_spacing_ge w] a by blast
    qed
    with mv show "fst v + 220 \<le> ?W" by blast
  qed
  have ranked_left: "\<forall>m x' y' w h. map_of l m \<noteq> None \<longrightarrow> map_of positions m = Some (x', y') \<longrightarrow>
      map_of (node_sizes_of nodes ?iso) m = Some (w, h) \<longrightarrow> x' < ?W \<and> x' + w < x"
  proof (intro allI impI)
    fix m x' y' w h
    assume m: "map_of l m \<noteq> None" and p: "map_of positions m = Some (x', y')"
      and s: "map_of (node_sizes_of nodes ?iso) m = Some (w, h)"
    from m map_of_keys [of l m] lk have "m \<in> ?conn" by auto
    then have "m \<notin> set ?iso" using isolated_not_connected by blast
    from place_isolated_keeps [OF pi this] p have "map_of ranked m = Some (x', y')" by simp
    from left [OF this] have "x' + 220 \<le> ?W" by simp
    moreover from node_sizes_of_width [OF s] have "w \<le> 300" by simp
    ultimately show "x' < ?W \<and> x' + w < x" using xy(2) by linarith
  qed
  from ranks(1) r0 sc l0 lay xy ranked_left show ?thesis by blast
qed

text \<open>
  C9, witness: node 7 of the chain with two isolated functions, and the ranked node 6
  of the same layout.
\<close>

theorem isolated_nodes_apart_witness:
  "7 \<in> set (dict_keys side_nodes)
   \<and> list_all (\<lambda>e. fst e \<noteq> 7 \<and> snd e \<noteq> 7) chain_edges
   \<and> assign_levels side_nodes chain_edges = Some [(1, 0), (6, 3), (2, 1), (3, 2), (4, 3), (5, 4)]
   \<and> map_of [(1::nat, 0::int), (6, 3), (2, 1), (3, 2), (4, 3), (5, 4)] 7 = None
   \<and> split_crowded side_nodes chain_edges
       = Some ([(0, [1]), (3, [6, 4]), (1, [2]), (2, [3]), (4, [5])],
               [(1, 0), (6, 3), (2, 1), (3, 2), (4, 3), (5, 4)])
   \<and> map_of [(1::nat, 0::rat), (6, 3), (2, 1), (3, 2), (4, 3), (5, 4)] 7 = None
   \<and> calculate_hierarchical_layout side_nodes chain_edges
       = Some ([(1, 600, 200), (2, 600, 420), (3, 600, 640), (6, 420, 860), (4, 780, 860), (5, 600, 1080),
                (8, 1350, 200), (7, 1350, 300)],
               [(1, 100, 50), (2, 100, 50), (3, 100, 50), (4, 100, 50), (5, 100, 50), (6, 100, 50),
                (7, 90, 45), (8, 90, 45)],
               100, 50, 2, 1600)
   \<and> layout_main_graph_width side_nodes chain_edges [(0, [1]), (3, [6, 4]), (1, [2]), (2, [3]), (4, [5])] = 1200
   \<and> map_of [(1::nat, 600::int, 200::rat), (2, 600, 420), (3, 600, 640), (6, 420, 860), (4, 780, 860),
              (5, 600, 1080), (8, 1350, 200), (7, 1350, 300)] 7 = Some (1350, 300)
   \<and> (1200::int) + 150 \<le> 1350
   \<and> map_of [(1::nat, 0::rat), (6, 3), (2, 1), (3, 2), (4, 3), (5, 4)] 6 \<noteq> None
   \<and> map_of [(1::nat, 600::int, 200::rat), (2, 600, 420), (3, 600, 640), (6, 420, 860), (4, 780, 860),
              (5, 600, 1080), (8, 1350, 200), (7, 1350, 300)] 6 = Some (420, 860)
   \<and> map_of [(1::nat, 100::int, 50::int), (2, 100, 50), (3, 100, 50), (4, 100, 50), (5, 100, 50),
              (6, 100, 50), (7, 90, 45), (8, 90, 45)] 6 = Some (100, 50)
   \<and> (420::int) < 1200 \<and> (420::int) + 100 < 1350"
proof -
  let ?G = "[(0::rat, [1::nat]), (3, [6, 4]), (1, [2]), (2, [3]), (4, [5])]"
  let ?L = "[(1::nat, 0::rat), (6, 3), (2, 1), (3, 2), (4, 3), (5, 4)]"
  let ?P = "[(1::nat, 600::int, 200::rat), (2, 600, 420), (3, 600, 640), (6, 420, 860), (4, 780, 860),
              (5, 600, 1080), (8, 1350, 200), (7, 1350, 300)]"
  let ?S = "[(1::nat, 100::int, 50::int), (2, 100, 50), (3, 100, 50), (4, 100, 50), (5, 100, 50),
              (6, 100, 50), (7, 90, 45), (8, 90, 45)]"
  have a: "7 \<in> set (dict_keys side_nodes)" by code_simp
  have b: "list_all (\<lambda>e. fst e \<noteq> 7 \<and> snd e \<noteq> 7) chain_edges" by code_simp
  then have b': "\<forall>e \<in> set chain_edges. fst e \<noteq> 7 \<and> snd e \<noteq> 7" by (simp add: list_all_iff)
  have r: "assign_levels side_nodes chain_edges = Some [(1, 0), (6, 3), (2, 1), (3, 2), (4, 3), (5, 4)]"
    by code_simp
  have c: "split_crowded side_nodes chain_edges = Some (?G, ?L)" by code_simp
  have d: "calculate_hierarchical_layout side_nodes chain_edges = Some (?P, ?S, 100, 50, 2, 1600)"
    by code_simp
  have e: "layout_main_graph_width side_nodes chain_edges ?G = 1200" by code_simp
  from isolated_nodes_apart [OF a b'] c d e obtain x y where
    p7: "map_of ?P 7 = Some (x, y)" "1200 + 150 \<le> x"
    and left: "\<forall>m x' y' w h. map_of ?L m \<noteq> None \<longrightarrow> map_of ?P m = Some (x', y') \<longrightarrow>
        map_of ?S m = Some (w, h) \<longrightarrow> x' < 1200 \<and> x' + w < x"
    by auto
  from p7(1) have x: "x = 1350" by simp
  have p6: "map_of ?L 6 \<noteq> None" "map_of ?P 6 = Some (420, 860)" "map_of ?S 6 = Some (100, 50)"
    by simp_all
  from left p6 have "(420::int) < 1200 \<and> (420::int) + 100 < x" by blast
  with a b r c d e p7 p6 x show ?thesis by simp
qed

end
